theory Spec2Isabelle
  imports Main "HOL-Library.Word" "HOL-Library.AList" "HOL-Library.Multiset"
begin

unbundle bit_operations_syntax

section \<open>Dependency entries and their tracking markers (dep.ts)\<close>

text \<open>
  Objects of the program are referred to by address: an effect by an \<open>eid\<close>, a
  \<open>Dep\<close> by a \<open>did\<close>.  A \<open>Dep\<close> is a JavaScript \<open>Set\<close> of effects (kept
  here as a duplicate-free list in insertion order, which is the iteration order of
  a \<open>Set\<close>) that carries the two marker fields \<open>w\<close> and \<open>n\<close>.  The markers are
  only ever produced by the bitwise operators, whose results are 32-bit signed
  integers.
\<close>

type_synonym eid = nat
type_synonym did = nat

record dep =
  members :: "eid list"
  w :: "32 word"
  n :: "32 word"

definition set_add :: "'a list \<Rightarrow> 'a \<Rightarrow> 'a list" where
  "set_add xs x = (if x \<in> set xs then xs else xs @ [x])"

definition set_delete :: "'a list \<Rightarrow> 'a \<Rightarrow> 'a list" where
  "set_delete xs x = removeAll x xs"

definition createDep :: "eid list \<Rightarrow> dep" where
  "createDep effs = \<lparr>members = foldl set_add [] effs, w = 0, n = 0\<rparr>"

text \<open>
  \<open>wasTracked\<close> and \<open>newTracked\<close> read the module variable \<open>trackOpBit\<close>;
  it is passed here as the second argument.
\<close>

definition wasTracked :: "dep \<Rightarrow> 32 word \<Rightarrow> bool" where
  "wasTracked d tb = (sint (w d AND tb) > 0)"

definition newTracked :: "dep \<Rightarrow> 32 word \<Rightarrow> bool" where
  "newTracked d tb = (sint (n d AND tb) > 0)"

text \<open>\<open>1 << k\<close>: the shift count of JavaScript's \<open><<\<close> is taken modulo 32.\<close>

definition shl1 :: "int \<Rightarrow> 32 word" where
  "shl1 k = push_bit (nat (k mod 32)) 1"

definition maxMarkerBits :: int where
  "maxMarkerBits = 30"

section \<open>Keys, targets and user code\<close>

text \<open>
  A property key is a string or a symbol.  \<open>ITERATE_KEY\<close> and
  \<open>MAP_KEY_ITERATE_KEY\<close> are two fixed symbols.
\<close>

datatype key = KStr string | KSym nat

definition ITERATE_KEY :: key where
  "ITERATE_KEY = KSym 0"

definition MAP_KEY_ITERATE_KEY :: key where
  "MAP_KEY_ITERATE_KEY = KSym 1"

datatype tkind = PlainObject | Array | MapColl | SetColl

datatype target = Target tkind nat

fun isArray :: "target \<Rightarrow> bool" where
  "isArray (Target k _) = (k = Array)"

fun isMap :: "target \<Rightarrow> bool" where
  "isMap (Target k _) = (k = MapColl)"

text \<open>
  The decimal numerals.  \<open>index_of_string s\<close> is the number that \<open>s\<close> is the
  canonical decimal numeral of (digits only, no leading zero), if any.
\<close>

definition is_digit :: "char \<Rightarrow> bool" where
  "is_digit c = (48 \<le> (of_char c :: nat) \<and> (of_char c :: nat) \<le> 57)"

definition dec_value :: "string \<Rightarrow> nat" where
  "dec_value s = foldl (\<lambda>a c. 10 * a + (of_char c - 48)) 0 s"

definition index_of_string :: "string \<Rightarrow> nat option" where
  "index_of_string s =
     (if s \<noteq> [] \<and> list_all is_digit s \<and> (hd s \<noteq> CHR ''0'' \<or> s = ''0'')
      then Some (dec_value s) else None)"

fun key_index :: "key \<Rightarrow> nat option" where
  "key_index (KStr s) = index_of_string s"
| "key_index (KSym _) = None"

text \<open>
  \<open>isIntegerKey\<close> (@vue/shared) is not among the sources.  Modelled from the spec:
  the key is an integer index, that is, a string that is the canonical decimal
  numeral of a natural number.
\<close>

definition isIntegerKey :: "key \<Rightarrow> bool" where
  "isIntegerKey k = (key_index k \<noteq> None)"

text \<open>
  The conversion of a string to a number by the language (\<open>StringToNumber\<close>, which
  \<open>key >= newValue\<close> applies to a string key): white space is trimmed; the empty
  string is \<open>0\<close>; a binary, octal or hexadecimal literal is its value; a decimal
  literal, with an optional sign, fraction and exponent, is its value; \<open>Infinity\<close>
  with an optional sign; anything else is \<open>NaN\<close>.  The value \<open>SFin neg m e\<close> is
  \<open>m\<close> times ten to the \<open>e\<close>, negated when \<open>neg\<close>.  Numbers are exact here: the
  rounding to a double is not part of the model.
\<close>

datatype strnum = SNaN | SInf bool | SFin bool nat int

definition is_ws :: "char \<Rightarrow> bool" where
  "is_ws c = ((of_char c :: nat) \<in> {9, 10, 11, 12, 13, 32, 160})"

definition trim :: "string \<Rightarrow> string" where
  "trim s = rev (dropWhile is_ws (rev (dropWhile is_ws s)))"

definition digit_of :: "char \<Rightarrow> nat option" where
  "digit_of c =
     (let k = (of_char c :: nat) in
      if 48 \<le> k \<and> k \<le> 57 then Some (k - 48)
      else if 97 \<le> k \<and> k \<le> 102 then Some (k - 87)
      else if 65 \<le> k \<and> k \<le> 70 then Some (k - 55)
      else None)"

fun digits_value :: "nat \<Rightarrow> string \<Rightarrow> nat \<Rightarrow> nat option" where
  "digits_value b [] acc = Some acc"
| "digits_value b (c # cs) acc =
     (case digit_of c of
        None \<Rightarrow> None
      | Some d \<Rightarrow> if d < b then digits_value b cs (acc * b + d) else None)"

definition non_decimal :: "string \<Rightarrow> nat option" where
  "non_decimal s =
     (case s of
        z # c # ds \<Rightarrow>
          (if z = CHR ''0'' \<and> ds \<noteq> [] then
             (if c = CHR ''x'' \<or> c = CHR ''X'' then digits_value 16 ds 0
              else if c = CHR ''o'' \<or> c = CHR ''O'' then digits_value 8 ds 0
              else if c = CHR ''b'' \<or> c = CHR ''B'' then digits_value 2 ds 0
              else None)
           else None)
      | _ \<Rightarrow> None)"

definition signed_body :: "string \<Rightarrow> bool \<times> string" where
  "signed_body s =
     (case s of
        [] \<Rightarrow> (False, [])
      | c # cs \<Rightarrow> if c = CHR ''-'' then (True, cs) else if c = CHR ''+'' then (False, cs)
                  else (False, s))"

definition exponent_part :: "string \<Rightarrow> int option" where
  "exponent_part r =
     (if r = [] then Some 0
      else (case signed_body (tl r) of
              (neg, ds) \<Rightarrow>
                if ds \<noteq> [] \<and> list_all is_digit ds
                then Some (if neg then - int (dec_value ds) else int (dec_value ds))
                else None))"

definition is_exp :: "char \<Rightarrow> bool" where
  "is_exp c = (c = CHR ''e'' \<or> c = CHR ''E'')"

definition unsigned_decimal :: "string \<Rightarrow> (nat \<times> int) option" where
  "unsigned_decimal s =
     (let m = takeWhile (\<lambda>c. \<not> is_exp c) s;
          r = dropWhile (\<lambda>c. \<not> is_exp c) s;
          ip = takeWhile (\<lambda>c. c \<noteq> CHR ''.'') m;
          fr = dropWhile (\<lambda>c. c \<noteq> CHR ''.'') m;
          fp = (if fr = [] then [] else tl fr)
      in if list_all is_digit ip \<and> list_all is_digit fp \<and>
            (if fr = [] then ip \<noteq> [] else ip \<noteq> [] \<or> fp \<noteq> [])
         then (case exponent_part r of
                 None \<Rightarrow> None
               | Some ex \<Rightarrow> Some (dec_value (ip @ fp), ex - int (length fp)))
         else None)"

definition StringToNumber :: "string \<Rightarrow> strnum" where
  "StringToNumber s =
     (let t = trim s in
      if t = [] then SFin False 0 0
      else (case non_decimal t of
              Some v \<Rightarrow> SFin False v 0
            | None \<Rightarrow>
                (case signed_body t of
                   (neg, u) \<Rightarrow>
                     if u = ''Infinity'' then SInf neg
                     else (case unsigned_decimal u of
                             None \<Rightarrow> SNaN
                           | Some (m, e) \<Rightarrow> SFin neg m e))))"

text \<open>\<open>x >= v\<close> for the number \<open>x\<close> of a string and an integer \<open>v\<close>.\<close>

fun strnum_ge :: "strnum \<Rightarrow> int \<Rightarrow> bool" where
  "strnum_ge SNaN v = False"
| "strnum_ge (SInf neg) v = (\<not> neg)"
| "strnum_ge (SFin neg m e) v =
     (let x = (if neg then - int m else int m) in
      if 0 \<le> e then v \<le> x * 10 ^ nat e else v * 10 ^ nat (- e) \<le> x)"

datatype TriggerOpTypes = SET | ADD | DELETE | CLEAR

text \<open>
  The functions handed to the runtime (the \<open>fn\<close> of an effect, a scheduler, an
  \<open>onStop\<close> callback, the getter of a computed) are user code.  All they can do to
  the runtime is call its entry points, so a user function is a list of such calls,
  made in order; \<open>Throw\<close> is a user function raising an exception.  The
  \<open>newValue\<close> of a trigger is the number that \<open>trigger\<close> compares keys with
  (\<open>newValue as number\<close>); \<open>None\<close> is \<open>undefined\<close>.
\<close>

type_synonym cid = nat

datatype action =
    Track target key
  | Trigger target TriggerOpTypes "key option" "int option"
  | RunEffect eid
  | StopEffect eid
  | ReadComputed cid
  | PauseTracking
  | EnableTracking
  | ResetTracking
  | Throw

datatype effect_scheduler = SchedUser "action list" | SchedComputed cid

record effect =
  active :: bool
  deps :: "did list"
  parent :: "eid option"
  allowRecurse :: bool
  fn :: "action list"
  scheduler :: "effect_scheduler option"
  onStop :: "action list option"

record computedRef =
  cdep :: "did option"
  ceffect :: eid
  dirty :: bool
  cacheable :: bool

text \<open>
  What the runtime did, in order: each call of an effect's \<open>fn\<close>, of a scheduler and
  of an \<open>onStop\<close> callback is recorded.  The record is not read by the program.
\<close>

datatype event = FnCalled eid | SchedulerCalled eid | OnStopCalled eid

record rt =
  depStore :: "did \<Rightarrow> dep"
  nextDep :: did
  effects :: "eid \<Rightarrow> effect"
  computeds :: "cid \<Rightarrow> computedRef"
  targetMap :: "target \<Rightarrow> (key \<times> did) list option"
  activeEffect :: "eid option"
  shouldTrack :: bool
  trackStack :: "bool list"
  effectTrackDepth :: int
  trackOpBit :: "32 word"
  trace :: "event list"

section \<open>Marking, cleaning up and tracking (dep.ts, effect.ts)\<close>

definition upd_dep :: "did \<Rightarrow> (dep \<Rightarrow> dep) \<Rightarrow> rt \<Rightarrow> rt" where
  "upd_dep d f s = s\<lparr>depStore := (depStore s)(d := f (depStore s d))\<rparr>"

definition upd_effect :: "eid \<Rightarrow> (effect \<Rightarrow> effect) \<Rightarrow> rt \<Rightarrow> rt" where
  "upd_effect e f s = s\<lparr>effects := (effects s)(e := f (effects s e))\<rparr>"

definition upd_computed :: "cid \<Rightarrow> (computedRef \<Rightarrow> computedRef) \<Rightarrow> rt \<Rightarrow> rt" where
  "upd_computed c f s = s\<lparr>computeds := (computeds s)(c := f (computeds s c))\<rparr>"

text \<open>\<open>initDepMarkers\<close>: \<open>deps[i].w |= trackOpBit\<close> for every \<open>i\<close>.\<close>

definition initDepMarkers :: "eid \<Rightarrow> rt \<Rightarrow> rt" where
  "initDepMarkers e s =
     fold (\<lambda>d. upd_dep d (\<lambda>dp. dp\<lparr>w := w dp OR trackOpBit s\<rparr>)) (deps (effects s e)) s"

text \<open>
  \<open>finalizeDepMarkers\<close>: the loop runs over the array \<open>deps\<close> with the read index
  \<open>i\<close> and the write index \<open>ptr\<close>, updating the array in place; the array is
  then cut to \<open>ptr\<close>.
\<close>

definition clearBits :: "32 word \<Rightarrow> dep \<Rightarrow> dep" where
  "clearBits tb dp = dp\<lparr>w := w dp AND NOT tb, n := n dp AND NOT tb\<rparr>"

function finalize_loop ::
  "eid \<Rightarrow> 32 word \<Rightarrow> nat \<Rightarrow> nat \<Rightarrow> did list \<Rightarrow> (did \<Rightarrow> dep)
     \<Rightarrow> nat \<times> did list \<times> (did \<Rightarrow> dep)" where
  "finalize_loop e tb i ptr ds st =
     (if i < length ds then
        (let d = ds ! i in
         if wasTracked (st d) tb \<and> \<not> newTracked (st d) tb
         then finalize_loop e tb (i + 1) ptr ds
                (st(d := clearBits tb ((st d)\<lparr>members := set_delete (members (st d)) e\<rparr>)))
         else finalize_loop e tb (i + 1) (ptr + 1) (ds[ptr := d])
                (st(d := clearBits tb (st d))))
      else (ptr, ds, st))"
  by pat_completeness auto
termination
  by (relation "measure (\<lambda>(e, tb, i, ptr, ds, st). length ds - i)") auto

declare finalize_loop.simps [simp del]

definition finalizeDepMarkers :: "eid \<Rightarrow> rt \<Rightarrow> rt" where
  "finalizeDepMarkers e s =
     (let ds = deps (effects s e) in
      if length ds \<noteq> 0 then
        (case finalize_loop e (trackOpBit s) 0 0 ds (depStore s) of
           (ptr, ds', st') \<Rightarrow>
             upd_effect e (\<lambda>ef. ef\<lparr>deps := take ptr ds'\<rparr>) (s\<lparr>depStore := st'\<rparr>))
      else s)"

text \<open>\<open>cleanupEffect\<close>: \<open>deps[i].delete(effect)\<close> for every \<open>i\<close>, then \<open>deps.length = 0\<close>.\<close>

definition cleanupEffect :: "eid \<Rightarrow> rt \<Rightarrow> rt" where
  "cleanupEffect e s =
     (let ds = deps (effects s e) in
      if length ds \<noteq> 0 then
        upd_effect e (\<lambda>ef. ef\<lparr>deps := []\<rparr>)
          (fold (\<lambda>d. upd_dep d (\<lambda>dp. dp\<lparr>members := set_delete (members dp) e\<rparr>)) ds s)
      else s)"

text \<open>
  \<open>trackEffects dep\<close>; the effect \<open>e\<close> is \<open>activeEffect!\<close>, which the callers
  have tested to be defined.
\<close>

definition trackEffects :: "did \<Rightarrow> eid \<Rightarrow> rt \<Rightarrow> rt" where
  "trackEffects d e s =
     (let (s1, shouldTrack') =
        (if effectTrackDepth s \<le> maxMarkerBits then
           (if \<not> newTracked (depStore s d) (trackOpBit s)
            then (upd_dep d (\<lambda>dp. dp\<lparr>n := n dp OR trackOpBit s\<rparr>) s,
                  \<not> wasTracked (depStore s d) (trackOpBit s))
            else (s, False))
         else (s, e \<notin> set (members (depStore s d))))
      in if shouldTrack'
         then upd_effect e (\<lambda>ef. ef\<lparr>deps := deps ef @ [d]\<rparr>)
                (upd_dep d (\<lambda>dp. dp\<lparr>members := set_add (members dp) e\<rparr>) s1)
         else s1)"

text \<open>
  \<open>track\<close>: the \<open>depsMap\<close> of a target is a \<open>Map\<close>, kept as an association
  list in insertion order; \<open>createDep()\<close> allocates the next free address.
\<close>

definition track :: "target \<Rightarrow> key \<Rightarrow> rt \<Rightarrow> rt" where
  "track t k s =
     (if shouldTrack s then
        (case activeEffect s of
           None \<Rightarrow> s
         | Some e \<Rightarrow>
             (let depsMap = (case targetMap s t of None \<Rightarrow> [] | Some m \<Rightarrow> m) in
              case map_of depsMap k of
                Some d \<Rightarrow> trackEffects d e (s\<lparr>targetMap := (targetMap s)(t \<mapsto> depsMap)\<rparr>)
              | None \<Rightarrow>
                  (let d = nextDep s in
                   trackEffects d e
                     (s\<lparr>targetMap := (targetMap s)(t \<mapsto> depsMap @ [(k, d)]),
                        depStore := (depStore s)(d := createDep []),
                        nextDep := d + 1\<rparr>))))
      else s)"

definition pauseTracking :: "rt \<Rightarrow> rt" where
  "pauseTracking s = s\<lparr>trackStack := trackStack s @ [shouldTrack s], shouldTrack := False\<rparr>"

definition enableTracking :: "rt \<Rightarrow> rt" where
  "enableTracking s = s\<lparr>trackStack := trackStack s @ [shouldTrack s], shouldTrack := True\<rparr>"

definition resetTracking :: "rt \<Rightarrow> rt" where
  "resetTracking s =
     (if trackStack s = [] then s\<lparr>shouldTrack := True\<rparr>
      else s\<lparr>trackStack := butlast (trackStack s), shouldTrack := last (trackStack s)\<rparr>)"

section \<open>Resolving the entries to notify (trigger, effect.ts)\<close>

text \<open>
  \<open>key >= newValue\<close>: a string key is converted to a number and compared, a
  string that is not a number giving \<open>NaN\<close> and so \<open>false\<close>, as does
  \<open>undefined\<close> on the right; a symbol cannot be converted to a number and the
  comparison throws a \<open>TypeError\<close> (the result \<open>None\<close>).
\<close>

fun key_ge :: "key \<Rightarrow> int option \<Rightarrow> bool option" where
  "key_ge (KSym _) _ = None"
| "key_ge (KStr s) (Some v) = Some (strnum_ge (StringToNumber s) v)"
| "key_ge (KStr s) None = Some False"

text \<open>The \<open>depsMap.forEach\<close> of the \<open>length\<close> branch, in insertion order.\<close>

fun length_deps ::
  "(key \<times> did) list \<Rightarrow> int option \<Rightarrow> did option list \<Rightarrow> did option list option" where
  "length_deps [] nv acc = Some acc"
| "length_deps ((k, d) # m) nv acc =
     (if k = KStr ''length'' then length_deps m nv (acc @ [Some d])
      else (case key_ge k nv of
              None \<Rightarrow> None
            | Some b \<Rightarrow> length_deps m nv (if b then acc @ [Some d] else acc)))"

text \<open>
  The array \<open>deps\<close> that \<open>trigger\<close> builds from a \<open>depsMap\<close>; an entry
  \<open>None\<close> is \<open>undefined\<close> (\<open>depsMap.get\<close> of a key never tracked).
\<close>

definition collect_deps ::
  "(key \<times> did) list \<Rightarrow> target \<Rightarrow> TriggerOpTypes \<Rightarrow> key option \<Rightarrow> int option
     \<Rightarrow> did option list option" where
  "collect_deps depsMap t ty k nv =
     (if ty = CLEAR then Some (map (\<lambda>(k', d). Some d) depsMap)
      else if k = Some (KStr ''length'') \<and> isArray t then length_deps depsMap nv []
      else
        (let deps1 = (case k of None \<Rightarrow> [] | Some k' \<Rightarrow> [map_of depsMap k']);
             deps2 =
               (case ty of
                  ADD \<Rightarrow>
                    (if \<not> isArray t then
                       [map_of depsMap ITERATE_KEY] @
                       (if isMap t then [map_of depsMap MAP_KEY_ITERATE_KEY] else [])
                     else if (case k of None \<Rightarrow> False | Some k' \<Rightarrow> isIntegerKey k')
                       then [map_of depsMap (KStr ''length'')]
                     else [])
                | DELETE \<Rightarrow>
                    (if \<not> isArray t then
                       [map_of depsMap ITERATE_KEY] @
                       (if isMap t then [map_of depsMap MAP_KEY_ITERATE_KEY] else [])
                     else [])
                | SET \<Rightarrow> (if isMap t then [map_of depsMap ITERATE_KEY] else [])
                | CLEAR \<Rightarrow> [])
         in Some (deps1 @ deps2)))"

text \<open>
  The effects handed to \<open>triggerEffects\<close>: the spread of the single entry, or of
  the \<open>Set\<close> made of the members of all entries.
\<close>

definition effects_of_deps :: "(did \<Rightarrow> dep) \<Rightarrow> did option list \<Rightarrow> eid list" where
  "effects_of_deps st ds =
     (if length ds = 1 then
        (case hd ds of None \<Rightarrow> [] | Some d \<Rightarrow> members (st d))
      else members (createDep (concat (map (\<lambda>x. case x of None \<Rightarrow> [] | Some d \<Rightarrow> members (st d)) ds))))"

text \<open>
  \<open>trigger\<close> up to its call of \<open>triggerEffects\<close>: the list of effects it passes
  on, \<open>None\<close> when collecting them throws.
\<close>

definition trigger_effects ::
  "rt \<Rightarrow> target \<Rightarrow> TriggerOpTypes \<Rightarrow> key option \<Rightarrow> int option \<Rightarrow> eid list option" where
  "trigger_effects s t ty k nv =
     (case targetMap s t of
        None \<Rightarrow> Some []
      | Some depsMap \<Rightarrow>
          (case collect_deps depsMap t ty k nv of
             None \<Rightarrow> None
           | Some ds \<Rightarrow> Some (effects_of_deps (depStore s) ds)))"

section \<open>Running effects (effect.ts, computed.ts)\<close>

text \<open>
  A call either returns or throws; \<open>None\<close> stands for a call that has not returned
  within the given number of nested calls of user functions.
\<close>

datatype outcome = Normal | Thrown

type_synonym result = "(outcome \<times> rt) option"

definition emit :: "event \<Rightarrow> rt \<Rightarrow> rt" where
  "emit ev s = s\<lparr>trace := trace s @ [ev]\<rparr>"

text \<open>The \<open>while (parent)\<close> loop of \<open>run\<close>: is \<open>e\<close> on the parent chain from \<open>p\<close>?\<close>

fun walkParents :: "nat \<Rightarrow> (eid \<Rightarrow> effect) \<Rightarrow> eid option \<Rightarrow> eid \<Rightarrow> bool option" where
  "walkParents k efs None e = Some False"
| "walkParents k efs (Some p) e =
     (if p = e then Some True
      else (case k of 0 \<Rightarrow> None | Suc k' \<Rightarrow> walkParents k' efs (parent (efs p)) e))"

text \<open>The part of \<open>run\<close> before \<open>this.fn()\<close> and its \<open>finally\<close> block.\<close>

definition run_enter :: "eid \<Rightarrow> rt \<Rightarrow> rt" where
  "run_enter e s =
     (let s1 = upd_effect e (\<lambda>ef. ef\<lparr>parent := activeEffect s\<rparr>) s;
          s2 = s1\<lparr>activeEffect := Some e, shouldTrack := True,
                  effectTrackDepth := effectTrackDepth s + 1,
                  trackOpBit := shl1 (effectTrackDepth s + 1)\<rparr>
      in if effectTrackDepth s2 \<le> maxMarkerBits then initDepMarkers e s2
         else cleanupEffect e s2)"

definition run_finally :: "eid \<Rightarrow> bool \<Rightarrow> rt \<Rightarrow> rt" where
  "run_finally e lastShouldTrack s =
     (let s1 = (if effectTrackDepth s \<le> maxMarkerBits then finalizeDepMarkers e s else s);
          s2 = s1\<lparr>effectTrackDepth := effectTrackDepth s1 - 1,
                  trackOpBit := shl1 (effectTrackDepth s1 - 1)\<rparr>;
          s3 = s2\<lparr>activeEffect := parent (effects s2 e), shouldTrack := lastShouldTrack\<rparr>
      in upd_effect e (\<lambda>ef. ef\<lparr>parent := None\<rparr>) s3)"

text \<open>
  \<open>trackRefValue\<close> and \<open>triggerRefValue\<close> (ref.ts) are not among the sources.
  Modelled from the spec: reading a derived value emits a track event with the
  derived value itself as the target, on its own dependency entry, created on first
  use; its dependents are the members of that entry.
\<close>

definition trackRefValue :: "cid \<Rightarrow> rt \<Rightarrow> rt" where
  "trackRefValue c s =
     (if shouldTrack s then
        (case activeEffect s of
           None \<Rightarrow> s
         | Some e \<Rightarrow>
             (case cdep (computeds s c) of
                Some d \<Rightarrow> trackEffects d e s
              | None \<Rightarrow>
                  (let d = nextDep s in
                   trackEffects d e
                     (upd_computed c (\<lambda>cr. cr\<lparr>cdep := Some d\<rparr>)
                        (s\<lparr>depStore := (depStore s)(d := createDep []), nextDep := d + 1\<rparr>)))))
      else s)"

definition refValue_effects :: "cid \<Rightarrow> rt \<Rightarrow> eid list" where
  "refValue_effects c s =
     (case cdep (computeds s c) of None \<Rightarrow> [] | Some d \<Rightarrow> members (depStore s d))"

text \<open>
  The calls that run user code, directly or through other calls: the body of a user
  function, \<open>triggerEffects\<close>, the scheduler of an effect (a user function, or the
  one that \<open>ComputedRefImpl\<close> installs), an \<open>onStop\<close> callback,
  \<open>ReactiveEffect.run\<close>, \<open>ReactiveEffect.stop\<close> and the getter
  \<open>ComputedRefImpl.value\<close>.  Each call of a user function uses up one unit of the
  first argument.
\<close>


datatype call =
    Body "action list"
  | TriggerEffects "eid list"
  | CallScheduler eid effect_scheduler
  | CallOnStop eid "action list"
  | Run eid
  | Stop eid
  | ComputedGet cid

fun call_rank :: "call \<Rightarrow> nat \<times> nat" where
  "call_rank (Body as) = (3, length as)"
| "call_rank (TriggerEffects es) = (2, length es)"
| "call_rank (CallScheduler e sc) = (0, 0)"
| "call_rank (CallOnStop e acts) = (0, 0)"
| "call_rank (Run e) = (0, 0)"
| "call_rank (Stop e) = (1, 0)"
| "call_rank (ComputedGet c) = (1, 0)"

function (sequential) eval :: "nat \<Rightarrow> call \<Rightarrow> rt \<Rightarrow> result" where
  "eval k (Body []) s = Some (Normal, s)"
| "eval k (Body (a # as)) s =
     (case (case a of
              Track t ky \<Rightarrow> Some (Normal, track t ky s)
            | Trigger t ty ky nv \<Rightarrow>
                (case trigger_effects s t ty ky nv of
                   None \<Rightarrow> Some (Thrown, s)
                 | Some effs \<Rightarrow> eval k (TriggerEffects effs) s)
            | RunEffect e \<Rightarrow> eval k (Run e) s
            | StopEffect e \<Rightarrow> eval k (Stop e) s
            | ReadComputed c \<Rightarrow> eval k (ComputedGet c) s
            | PauseTracking \<Rightarrow> Some (Normal, pauseTracking s)
            | EnableTracking \<Rightarrow> Some (Normal, enableTracking s)
            | ResetTracking \<Rightarrow> Some (Normal, resetTracking s)
            | Throw \<Rightarrow> Some (Thrown, s)) of
        Some (Normal, s') \<Rightarrow> eval k (Body as) s'
      | r \<Rightarrow> r)"
| "eval k (TriggerEffects []) s = Some (Normal, s)"
| "eval k (TriggerEffects (e # es)) s =
     (if Some e \<noteq> activeEffect s \<or> allowRecurse (effects s e) then
        (case (case scheduler (effects s e) of
                 Some sc \<Rightarrow> eval k (CallScheduler e sc) s
               | None \<Rightarrow> eval k (Run e) s) of
           Some (Normal, s') \<Rightarrow> eval k (TriggerEffects es) s'
         | r \<Rightarrow> r)
      else eval k (TriggerEffects es) s)"
| "eval 0 (CallScheduler e sc) s = None"
| "eval (Suc k) (CallScheduler e (SchedUser acts)) s =
     eval k (Body acts) (emit (SchedulerCalled e) s)"
| "eval (Suc k) (CallScheduler e (SchedComputed c)) s =
     (let s0 = emit (SchedulerCalled e) s in
      if \<not> dirty (computeds s0 c)
      then (let s1 = upd_computed c (\<lambda>cr. cr\<lparr>dirty := True\<rparr>) s0
            in eval k (TriggerEffects (refValue_effects c s1)) s1)
      else Some (Normal, s0))"
| "eval 0 (CallOnStop e acts) s = None"
| "eval (Suc k) (CallOnStop e acts) s = eval k (Body acts) (emit (OnStopCalled e) s)"
| "eval 0 (Run e) s = None"
| "eval (Suc k) (Run e) s =
     (if \<not> active (effects s e) then eval k (Body (fn (effects s e))) (emit (FnCalled e) s)
      else
        (case walkParents k (effects s) (activeEffect s) e of
           None \<Rightarrow> None
         | Some True \<Rightarrow> Some (Normal, s)
         | Some False \<Rightarrow>
             (let s1 = run_enter e s in
              case eval k (Body (fn (effects s1 e))) (emit (FnCalled e) s1) of
                None \<Rightarrow> None
              | Some (out, s2) \<Rightarrow> Some (out, run_finally e (shouldTrack s) s2))))"
| "eval k (Stop e) s =
     (if active (effects s e) then
        (let s1 = cleanupEffect e s in
         case (case onStop (effects s1 e) of
                 Some acts \<Rightarrow> eval k (CallOnStop e acts) s1
               | None \<Rightarrow> Some (Normal, s1)) of
           Some (Normal, s2) \<Rightarrow> Some (Normal, upd_effect e (\<lambda>ef. ef\<lparr>active := False\<rparr>) s2)
         | r \<Rightarrow> r)
      else Some (Normal, s))"
| "eval k (ComputedGet c) s =
     (let s1 = trackRefValue c s in
      if dirty (computeds s1 c) \<or> \<not> cacheable (computeds s1 c) then
        eval k (Run (ceffect (computeds s1 c))) (upd_computed c (\<lambda>cr. cr\<lparr>dirty := False\<rparr>) s1)
      else Some (Normal, s1))"
  by pat_completeness auto
termination
  by (relation "inv_image (less_than <*lex*> less_than <*lex*> less_than)
      (\<lambda>(k, c, s). (k, call_rank c))") auto

definition trigger ::
  "nat \<Rightarrow> target \<Rightarrow> TriggerOpTypes \<Rightarrow> key option \<Rightarrow> int option \<Rightarrow> rt \<Rightarrow> result" where
  "trigger k t ty ky nv s = eval k (Body [Trigger t ty ky nv]) s"


section \<open>Notions used to state the properties\<close>

text \<open>
  An entry is stale for the marker bit \<open>tb\<close> when its was-tracked bit is set and its
  newly-tracked bit is not.  \<open>finalize_list\<close> is the loop of
  \<open>finalizeDepMarkers\<close> read as a recursion over the list of entries, and
  \<open>finalized\<close> is what the loop leaves of an entry it visits once.
\<close>


definition stale :: "(did \<Rightarrow> dep) \<Rightarrow> 32 word \<Rightarrow> did \<Rightarrow> bool" where
  "stale st tb d = (wasTracked (st d) tb \<and> \<not> newTracked (st d) tb)"

fun finalize_list :: "eid \<Rightarrow> 32 word \<Rightarrow> did list \<Rightarrow> (did \<Rightarrow> dep) \<Rightarrow> did list \<times> (did \<Rightarrow> dep)" where
  "finalize_list e tb [] st = ([], st)"
| "finalize_list e tb (d # ds) st =
     (if stale st tb d
      then finalize_list e tb ds (st(d := clearBits tb ((st d)\<lparr>members := set_delete (members (st d)) e\<rparr>)))
      else (case finalize_list e tb ds (st(d := clearBits tb (st d))) of
              (kept, st') \<Rightarrow> (d # kept, st')))"

definition finalized :: "eid \<Rightarrow> 32 word \<Rightarrow> (did \<Rightarrow> dep) \<Rightarrow> did \<Rightarrow> dep" where
  "finalized e tb st d =
     clearBits tb (if stale st tb d then (st d)\<lparr>members := set_delete (members (st d)) e\<rparr> else st d)"

text \<open>A fresh effect (\<open>new ReactiveEffect(fn)\<close>) and the state of the freshly loaded modules.\<close>

definition newEffect :: "action list \<Rightarrow> effect" where
  "newEffect f = \<lparr>active = True, deps = [], parent = None, allowRecurse = False,
                  fn = f, scheduler = None, onStop = None\<rparr>"

definition rt_init :: "(eid \<Rightarrow> effect) \<Rightarrow> (cid \<Rightarrow> computedRef) \<Rightarrow> rt" where
  "rt_init efs cs = \<lparr>depStore = (\<lambda>_. createDep []), nextDep = 0, effects = efs, computeds = cs,
                      targetMap = (\<lambda>_. None), activeEffect = None, shouldTrack = True,
                      trackStack = [], effectTrackDepth = 0, trackOpBit = 1, trace = []\<rparr>"

definition no_computeds :: "cid \<Rightarrow> computedRef" where
  "no_computeds = (\<lambda>_. \<lparr>cdep = None, ceffect = 0, dirty = True, cacheable = True\<rparr>)"

text \<open>An effect (7) at the end of a run at depth 1: entry 0 was tracked and is tracked again,
  entry 1 was tracked and is not any more, entry 2 is newly tracked.\<close>

definition fin_example :: rt where
  "fin_example =
     (rt_init (\<lambda>_. newEffect []) no_computeds)
       \<lparr>depStore := (\<lambda>_. createDep [])
           (0 := \<lparr>members = [7], w = 2, n = 2\<rparr>,
            1 := \<lparr>members = [7, 8], w = 2, n = 0\<rparr>,
            2 := \<lparr>members = [7], w = 0, n = 2\<rparr>),
         nextDep := 3,
         effects := (\<lambda>_. newEffect [])(7 := (newEffect [])\<lparr>deps := [0, 1, 2]\<rparr>),
         activeEffect := Some 7, effectTrackDepth := 1, trackOpBit := 2\<rparr>"

text \<open>
  The example of the length-shrink property: a tracked four-element array, effect 0
  reads index 3, effect 1 reads index 0; both have run once.
\<close>

definition arr :: target where
  "arr = Target Array 0"

definition shrink_effects :: "eid \<Rightarrow> effect" where
  "shrink_effects = (\<lambda>_. newEffect [])
     (0 := newEffect [Track arr (KStr ''3'')],
      1 := newEffect [Track arr (KStr ''0'')],
      2 := newEffect [Track arr (KSym 7)])"

definition shrink_start :: result where
  "shrink_start = eval 1 (Body [RunEffect 0, RunEffect 1]) (rt_init shrink_effects no_computeds)"

text \<open>The same array when effect 2, which reads a symbol-keyed property, has run too.\<close>

definition shrink_start_sym :: result where
  "shrink_start_sym =
     eval 1 (Body [RunEffect 0, RunEffect 1, RunEffect 2]) (rt_init shrink_effects no_computeds)"

text \<open>The keys that a write of \<open>nv\<close> to \<open>length\<close> is to notify.\<close>

definition length_notifies :: "int option \<Rightarrow> key \<Rightarrow> bool" where
  "length_notifies nv k =
     (k = KStr ''length'' \<or>
      (case (key_index k, nv) of (Some i, Some v) \<Rightarrow> v \<le> int i | _ \<Rightarrow> False))"

text \<open>
  The string keys that are \<open>length\<close>, an index, or a name that is not a number.
\<close>

fun index_or_name :: "key \<Rightarrow> bool" where
  "index_or_name (KStr s) =
     (s = ''length'' \<or> index_of_string s \<noteq> None \<or> StringToNumber s = SNaN)"
| "index_or_name (KSym _) = False"

fun is_symbol :: "key \<Rightarrow> bool" where
  "is_symbol (KSym _) = True"
| "is_symbol _ = False"

text \<open>
  The dependency graph is well formed (\<open>graph_ok\<close>) when:
  an effect is a member of an entry exactly when the entry is in its \<open>deps\<close> list
  (\<open>linked\<close>); no \<open>deps\<close> list holds an entry twice; the entries in use have been
  allocated; the marker bit is the one of the current depth; and every running effect
  sits at one level, of at least 1, the active one at the current depth and each
  parent one below, and, within the depth cap, each entry of its \<open>deps\<close> list
  carries the was-tracked or the newly-tracked bit of its level.
\<close>

definition linked :: "rt \<Rightarrow> bool" where
  "linked s = (\<forall>e d. (e \<in> set (members (depStore s d))) = (d \<in> set (deps (effects s e))))"

definition marked :: "dep \<Rightarrow> int \<Rightarrow> bool" where
  "marked dp l = (bit (w dp) (nat l) \<or> bit (n dp) (nat l))"

inductive chain_lvl :: "(eid \<Rightarrow> effect) \<Rightarrow> eid option \<Rightarrow> int \<Rightarrow> eid \<Rightarrow> int \<Rightarrow> bool"
  for efs where
  here: "chain_lvl efs (Some x) D x D"
| up: "chain_lvl efs (parent (efs p)) (D - 1) x l \<Longrightarrow> chain_lvl efs (Some p) D x l"

definition alloc_ok :: "rt \<Rightarrow> bool" where
  "alloc_ok s =
     ((\<forall>e. \<forall>d \<in> set (deps (effects s e)). d < nextDep s) \<and>
      (\<forall>t m k d. targetMap s t = Some m \<longrightarrow> (k, d) \<in> set m \<longrightarrow> d < nextDep s) \<and>
      (\<forall>c d. cdep (computeds s c) = Some d \<longrightarrow> d < nextDep s))"

definition levels_ok :: "rt \<Rightarrow> bool" where
  "levels_ok s =
     (trackOpBit s = shl1 (effectTrackDepth s) \<and> 0 \<le> effectTrackDepth s \<and>
      (\<forall>x l. chain_lvl (effects s) (activeEffect s) (effectTrackDepth s) x l \<longrightarrow>
         1 \<le> l \<and>
         (\<forall>l'. chain_lvl (effects s) (activeEffect s) (effectTrackDepth s) x l' \<longrightarrow> l' = l) \<and>
         (l \<le> 30 \<longrightarrow> (\<forall>d \<in> set (deps (effects s x)). marked (depStore s d) l))))"

text \<open>The two tests of \<open>trackEffects\<close>: is the entry marked as newly tracked, is the
  effect added to it.\<close>

definition te_mark :: "did \<Rightarrow> rt \<Rightarrow> bool" where
  "te_mark d s =
     (effectTrackDepth s \<le> maxMarkerBits \<and> \<not> newTracked (depStore s d) (trackOpBit s))"

definition te_add :: "did \<Rightarrow> eid \<Rightarrow> rt \<Rightarrow> bool" where
  "te_add d a s =
     (if effectTrackDepth s \<le> maxMarkerBits
      then \<not> newTracked (depStore s d) (trackOpBit s) \<and> \<not> wasTracked (depStore s d) (trackOpBit s)
      else a \<notin> set (members (depStore s d)))"

definition graph_ok :: "rt \<Rightarrow> bool" where
  "graph_ok s =
     (linked s \<and> (\<forall>e. distinct (deps (effects s e))) \<and> alloc_ok s \<and> levels_ok s)"

text \<open>
  Two effects in the freshly loaded runtime: effect 0 reads the property \<open>a\<close>,
  effect 1 reads \<open>a\<close> and \<open>b\<close>.  The script runs both, writes \<open>a\<close> and stops
  effect 1.
\<close>

definition link_start :: rt where
  "link_start =
     rt_init ((\<lambda>_. newEffect [])
                (0 := newEffect [Track (Target PlainObject 0) (KStr ''a'')],
                 1 := newEffect [Track (Target PlainObject 0) (KStr ''a''),
                                 Track (Target PlainObject 0) (KStr ''b'')]))
       no_computeds"

definition link_script :: "action list" where
  "link_script =
     [RunEffect 0, RunEffect 1,
      Trigger (Target PlainObject 0) SET (Some (KStr ''a'')) (Some 1),
      StopEffect 1]"

text \<open>
  Effects whose functions only read and write reactive state: the calls of such a
  function are \<open>track\<close>, \<open>trigger\<close>, the pausing and resuming of tracking, runs
  of effects of a set \<open>F\<close>, and it may throw.  A plain effect of \<open>F\<close> is not stopped,
  has no scheduler and has such a function.  A system is plain for \<open>F\<close> when \<open>F\<close> is
  finite, its effects are plain and every member of every dependency entry is in
  \<open>F\<close>.
\<close>

fun plain_action :: "eid set \<Rightarrow> action \<Rightarrow> bool" where
  "plain_action F (Track t k) = True"
| "plain_action F (Trigger t ty k nv) = True"
| "plain_action F (RunEffect x) = (x \<in> F)"
| "plain_action F (StopEffect x) = False"
| "plain_action F (ReadComputed c) = False"
| "plain_action F PauseTracking = True"
| "plain_action F EnableTracking = True"
| "plain_action F ResetTracking = True"
| "plain_action F Throw = True"

definition plain_effect :: "eid set \<Rightarrow> effect \<Rightarrow> bool" where
  "plain_effect F ef = (active ef \<and> scheduler ef = None \<and> list_all (plain_action F) (fn ef))"

definition plain_system :: "eid set \<Rightarrow> rt \<Rightarrow> bool" where
  "plain_system F s =
     (finite F \<and> (\<forall>x \<in> F. plain_effect F (effects s x)) \<and>
      (\<forall>d. set (members (depStore s d)) \<subseteq> F))"

text \<open>
  \<open>chain_list efs p cs\<close>: the effects met when following the \<open>parent\<close> fields
  from \<open>p\<close> are those of the list \<open>cs\<close>, in order, and the chain ends there.
  \<open>plain_running F cs s\<close>: the system is plain for \<open>F\<close> and the effects being run
  are the effects of \<open>cs\<close>, which are in \<open>F\<close>, each once.
\<close>

inductive chain_list :: "(eid \<Rightarrow> effect) \<Rightarrow> eid option \<Rightarrow> eid list \<Rightarrow> bool" for efs where
  nil: "chain_list efs None []"
| cons: "chain_list efs (parent (efs p)) cs \<Longrightarrow> chain_list efs (Some p) (p # cs)"

definition plain_running :: "eid set \<Rightarrow> eid list \<Rightarrow> rt \<Rightarrow> bool" where
  "plain_running F cs s =
     (plain_system F s \<and> chain_list (effects s) (activeEffect s) cs \<and> distinct cs \<and>
      set cs \<subseteq> F)"

section \<open>The property interception layer (baseHandlers.ts)\<close>

text \<open>
  Values: the primitives, and objects by address.  Numbers are \<open>NaN\<close> or an
  integer.
\<close>

datatype jsnum = NaN | Num int

datatype val = VUndefined | VNull | VBool bool | VNumber jsnum | VString string | VObject nat

text \<open>
  \<open>hasChanged\<close> (@vue/shared) is not among the sources.  Modelled from the spec:
  the new value differs from the old by an equality check that treats \<open>NaN\<close> and
  \<open>NaN\<close> as equal.
\<close>

definition hasChanged :: "val \<Rightarrow> val \<Rightarrow> bool" where
  "hasChanged v old = (v \<noteq> old)"

text \<open>
  What the traps rely on but do not define: the operations of the language on the
  raw objects (\<open>target[key]\<close>, \<open>hasOwn\<close>, \<open>Array.isArray\<close>, the \<open>length\<close> of
  an array, \<open>Reflect.set\<close> and \<open>Reflect.deleteProperty\<close>, which may throw:
  \<open>None\<close>), and the helpers of reactive.ts and ref.ts, which are not among the
  sources (\<open>isReadonly\<close>, \<open>isShallow\<close>, \<open>isRef\<close>, \<open>toRaw\<close>, and the setter of
  the \<open>value\<close> of a ref).  They are parameters of the model; \<open>'h\<close> is the heap.
\<close>

record 'h js_env =
  getProp :: "'h \<Rightarrow> nat \<Rightarrow> key \<Rightarrow> val"
  hasOwn :: "'h \<Rightarrow> nat \<Rightarrow> key \<Rightarrow> bool"
  isArrayObj :: "'h \<Rightarrow> nat \<Rightarrow> bool"
  lengthOf :: "'h \<Rightarrow> nat \<Rightarrow> nat"
  reflectSet :: "'h \<Rightarrow> nat \<Rightarrow> key \<Rightarrow> val \<Rightarrow> val \<Rightarrow> (bool \<times> 'h) option"
  reflectDelete :: "'h \<Rightarrow> nat \<Rightarrow> key \<Rightarrow> (bool \<times> 'h) option"
  isReadonly :: "'h \<Rightarrow> val \<Rightarrow> bool"
  isShallow :: "'h \<Rightarrow> val \<Rightarrow> bool"
  isRef :: "'h \<Rightarrow> val \<Rightarrow> bool"
  toRaw :: "'h \<Rightarrow> val \<Rightarrow> val"
  setRefValue :: "'h \<Rightarrow> val \<Rightarrow> val \<Rightarrow> 'h"

text \<open>
  What a trap does besides returning: the calls of \<open>trigger\<close> and \<open>track\<close> it
  makes, in order, an assignment \<open>oldValue.value = value\<close> to a ref, and the
  developer warnings it logs.
\<close>

datatype hevent =
    TriggerCall nat TriggerOpTypes key val val
  | TrackCall nat key
  | RefValueSet val val
  | Warning

fun is_trigger :: "hevent \<Rightarrow> bool" where
  "is_trigger (TriggerCall _ _ _ _ _) = True"
| "is_trigger _ = False"

fun is_track :: "hevent \<Rightarrow> bool" where
  "is_track (TrackCall _ _) = True"
| "is_track _ = False"

text \<open>
  \<open>hadKey\<close> of the \<open>set\<close> trap; \<open>Number(key)\<close> of an integer key is its
  index.
\<close>

definition hadKey :: "'h js_env \<Rightarrow> 'h \<Rightarrow> nat \<Rightarrow> key \<Rightarrow> bool" where
  "hadKey env h target k =
     (if isArrayObj env h target \<and> isIntegerKey k
      then (case key_index k of Some i \<Rightarrow> i < lengthOf env h target | None \<Rightarrow> False)
      else hasOwn env h target k)"

text \<open>
  The \<open>set\<close> trap made by \<open>createSetter(shallow)\<close>: the value it returns, the
  heap it leaves and the calls it makes; \<open>None\<close> when \<open>Reflect.set\<close> throws.
\<close>

definition createSetter ::
  "'h js_env \<Rightarrow> bool \<Rightarrow> 'h \<Rightarrow> nat \<Rightarrow> key \<Rightarrow> val \<Rightarrow> val \<Rightarrow> (bool \<times> 'h \<times> hevent list) option" where
  "createSetter env shallow h target k value0 receiver =
     (let oldValue0 = getProp env h target k in
      if isReadonly env h oldValue0 \<and> isRef env h oldValue0 \<and> \<not> isRef env h value0
      then Some (False, h, [])
      else
        (let unwrap = (\<not> shallow \<and> \<not> isReadonly env h value0);
             (value, oldValue) =
               (if unwrap \<and> \<not> isShallow env h value0
                then (toRaw env h value0, toRaw env h oldValue0)
                else (value0, oldValue0))
         in if unwrap \<and> \<not> isArrayObj env h target \<and> isRef env h oldValue \<and> \<not> isRef env h value
            then Some (True, setRefValue env h oldValue value, [RefValueSet oldValue value])
            else
              (let hk = hadKey env h target k in
               case reflectSet env h target k value receiver of
                 None \<Rightarrow> None
               | Some (result, h') \<Rightarrow>
                   Some (result, h',
                     (if VObject target = toRaw env h' receiver then
                        (if \<not> hk then [TriggerCall target ADD k value VUndefined]
                         else if hasChanged value oldValue
                           then [TriggerCall target SET k value oldValue]
                         else [])
                      else [])))))"

text \<open>The \<open>deleteProperty\<close> trap of the mutable handlers.\<close>

definition deleteProperty ::
  "'h js_env \<Rightarrow> 'h \<Rightarrow> nat \<Rightarrow> key \<Rightarrow> (bool \<times> 'h \<times> hevent list) option" where
  "deleteProperty env h target k =
     (let hk = hasOwn env h target k;
          oldValue = getProp env h target k
      in case reflectDelete env h target k of
           None \<Rightarrow> None
         | Some (result, h') \<Rightarrow>
             Some (result, h',
               if result \<and> hk then [TriggerCall target DELETE k VUndefined oldValue] else []))"

text \<open>
  The \<open>set\<close> and \<open>deleteProperty\<close> traps of \<open>readonlyHandlers\<close> (which
  \<open>shallowReadonlyHandlers\<close> takes over unchanged); \<open>dev\<close> is \<open>__DEV__\<close>.
\<close>

definition readonly_set ::
  "bool \<Rightarrow> 'h \<Rightarrow> nat \<Rightarrow> key \<Rightarrow> val \<Rightarrow> val \<Rightarrow> bool \<times> 'h \<times> hevent list" where
  "readonly_set dev h target k value0 receiver = (True, h, if dev then [Warning] else [])"

definition readonly_deleteProperty ::
  "bool \<Rightarrow> 'h \<Rightarrow> nat \<Rightarrow> key \<Rightarrow> bool \<times> 'h \<times> hevent list" where
  "readonly_deleteProperty dev h target k = (True, h, if dev then [Warning] else [])"

text \<open>
  The raw objects that the traps are run on: plain objects with their own data
  properties; arrays with their elements (\<open>None\<close> is a hole) and their other own
  properties; refs; and reactive proxies of a raw object (with their read-only and
  shallow flags).
\<close>

datatype obj =
    PlainObj "(key \<times> val) list"
  | ArrayObj "val option list" "(key \<times> val) list"
  | RefCell val bool
  | ReactiveProxy nat bool bool

type_synonym heap = "nat \<Rightarrow> obj"

text \<open>
  The operations of the language on these objects: \<open>target[key]\<close>,
  \<open>hasOwn\<close>, \<open>Array.isArray\<close> and the \<open>length\<close> of an array.
\<close>

definition js_getProp :: "heap \<Rightarrow> nat \<Rightarrow> key \<Rightarrow> val" where
  "js_getProp h a k =
     (case h a of
        PlainObj ps \<Rightarrow> (case map_of ps k of Some v \<Rightarrow> v | None \<Rightarrow> VUndefined)
      | ArrayObj xs ps \<Rightarrow>
          (case key_index k of
             Some i \<Rightarrow> (if i < length xs then (case xs ! i of Some v \<Rightarrow> v | None \<Rightarrow> VUndefined)
                        else VUndefined)
           | None \<Rightarrow>
               (if k = KStr ''length'' then VNumber (Num (int (length xs)))
                else (case map_of ps k of Some v \<Rightarrow> v | None \<Rightarrow> VUndefined)))
      | _ \<Rightarrow> VUndefined)"

definition js_hasOwn :: "heap \<Rightarrow> nat \<Rightarrow> key \<Rightarrow> bool" where
  "js_hasOwn h a k =
     (case h a of
        PlainObj ps \<Rightarrow> map_of ps k \<noteq> None
      | ArrayObj xs ps \<Rightarrow>
          (case key_index k of
             Some i \<Rightarrow> i < length xs \<and> xs ! i \<noteq> None
           | None \<Rightarrow> k = KStr ''length'' \<or> map_of ps k \<noteq> None)
      | _ \<Rightarrow> False)"

definition js_isArray :: "heap \<Rightarrow> nat \<Rightarrow> bool" where
  "js_isArray h a = (case h a of ArrayObj _ _ \<Rightarrow> True | _ \<Rightarrow> False)"

definition js_length :: "heap \<Rightarrow> nat \<Rightarrow> nat" where
  "js_length h a = (case h a of ArrayObj xs _ \<Rightarrow> length xs | _ \<Rightarrow> 0)"

text \<open>An environment whose operations of the language are the ones above.\<close>

definition js_ops :: "heap js_env \<Rightarrow> bool" where
  "js_ops env =
     (getProp env = js_getProp \<and> hasOwn env = js_hasOwn \<and> isArrayObj env = js_isArray \<and>
      lengthOf env = js_length)"

text \<open>
  Whether the object has the key before a write, in the words of the spec: the key
  already existed, where for sequences ``existed'' means that the integer index was
  within the current length; any other key exists when it is one of the own keys of
  the object.
\<close>

definition key_existed :: "heap \<Rightarrow> nat \<Rightarrow> key \<Rightarrow> bool" where
  "key_existed h a k =
     (case h a of
        PlainObj ps \<Rightarrow> k \<in> fst ` set ps
      | ArrayObj xs ps \<Rightarrow>
          (case key_index k of
             Some i \<Rightarrow> i < length xs
           | None \<Rightarrow> k = KStr ''length'' \<or> k \<in> fst ` set ps)
      | _ \<Rightarrow> False)"

text \<open>
  An environment to run the traps in.  \<open>Reflect.set\<close> writes the property of the
  raw object of the receiver (an index beyond the length of an array leaves holes
  below it; a \<open>length\<close> that is not a natural number throws), and
  \<open>Reflect.deleteProperty\<close> removes it (an element of an array becomes a hole,
  \<open>length\<close> cannot be deleted).
\<close>

definition ex_toRaw :: "heap \<Rightarrow> val \<Rightarrow> val" where
  "ex_toRaw h v =
     (case v of
        VObject a \<Rightarrow> (case h a of ReactiveProxy r _ _ \<Rightarrow> VObject r | _ \<Rightarrow> v)
      | _ \<Rightarrow> v)"

definition ex_reflectSet :: "heap \<Rightarrow> nat \<Rightarrow> key \<Rightarrow> val \<Rightarrow> val \<Rightarrow> (bool \<times> heap) option" where
  "ex_reflectSet h target k v receiver =
     (case ex_toRaw h receiver of
        VObject a \<Rightarrow>
          (case h a of
             PlainObj ps \<Rightarrow> Some (True, h(a := PlainObj (AList.update k v ps)))
           | ArrayObj xs ps \<Rightarrow>
               (case key_index k of
                  Some i \<Rightarrow>
                    Some (True, h(a := ArrayObj ((xs @ replicate (i + 1 - length xs) None)[i := Some v]) ps))
                | None \<Rightarrow>
                    (if k = KStr ''length'' then
                       (case v of
                          VNumber (Num l) \<Rightarrow>
                            (if 0 \<le> l then
                               Some (True, h(a := ArrayObj (take (nat l) xs @
                                                   replicate (nat l - length xs) None) ps))
                             else None)
                        | _ \<Rightarrow> None)
                     else Some (True, h(a := ArrayObj xs (AList.update k v ps)))))
           | _ \<Rightarrow> Some (False, h))
      | _ \<Rightarrow> Some (False, h))"

definition ex_reflectDelete :: "heap \<Rightarrow> nat \<Rightarrow> key \<Rightarrow> (bool \<times> heap) option" where
  "ex_reflectDelete h a k =
     (case h a of
        PlainObj ps \<Rightarrow> Some (True, h(a := PlainObj (AList.delete k ps)))
      | ArrayObj xs ps \<Rightarrow>
          (case key_index k of
             Some i \<Rightarrow> Some (True, if i < length xs then h(a := ArrayObj (xs[i := None]) ps) else h)
           | None \<Rightarrow>
               (if k = KStr ''length'' then Some (False, h)
                else Some (True, h(a := ArrayObj xs (AList.delete k ps)))))
      | _ \<Rightarrow> Some (False, h))"

definition ex_env :: "heap js_env" where
  "ex_env =
     \<lparr>getProp = js_getProp, hasOwn = js_hasOwn, isArrayObj = js_isArray, lengthOf = js_length,
      reflectSet = ex_reflectSet, reflectDelete = ex_reflectDelete,
      isReadonly = (\<lambda>h v. case v of
                      VObject a \<Rightarrow> (case h a of ReactiveProxy _ ro _ \<Rightarrow> ro
                                   | RefCell _ ro \<Rightarrow> ro | _ \<Rightarrow> False)
                    | _ \<Rightarrow> False),
      isShallow = (\<lambda>h v. case v of
                     VObject a \<Rightarrow> (case h a of ReactiveProxy _ _ sh \<Rightarrow> sh | _ \<Rightarrow> False)
                   | _ \<Rightarrow> False),
      isRef = (\<lambda>h v. case v of
                 VObject a \<Rightarrow> (case h a of RefCell _ _ \<Rightarrow> True | _ \<Rightarrow> False)
               | _ \<Rightarrow> False),
      toRaw = ex_toRaw,
      setRefValue = (\<lambda>h r v. case r of
                       VObject a \<Rightarrow> (case h a of RefCell _ ro \<Rightarrow> h(a := RefCell v ro) | _ \<Rightarrow> h)
                     | _ \<Rightarrow> h)\<rparr>"

text \<open>
  Object 0 is \<open>{count: NaN}\<close> and object 1 its reactive proxy; object 2 is another
  plain object; object 3 is the array \<open>[1, , 3]\<close>, with a hole at index 1, and
  object 4 its reactive proxy.
\<close>

definition ex_heap :: heap where
  "ex_heap = (\<lambda>_. PlainObj [])
     (0 := PlainObj [(KStr ''count'', VNumber NaN)],
      1 := ReactiveProxy 0 False False,
      2 := PlainObj [],
      3 := ArrayObj [Some (VNumber (Num 1)), None, Some (VNumber (Num 3))] [],
      4 := ReactiveProxy 3 False False)"

section \<open>The job scheduler (scheduler.ts)\<close>

text \<open>
  Jobs are functions carrying the optional fields \<open>id\<close>, \<open>active\<close> and
  \<open>allowRecurse\<close>; they are referred to by address.  What a job does to the
  scheduler when it runs is a list of calls of its entry points.  Job bodies do not
  throw here.
\<close>

type_synonym jid = nat

datatype sched_action =
    QueueJob jid
  | QueuePreFlushCb jid
  | QueuePostFlushCb jid
  | InvalidateJob jid

record job =
  job_id :: "int option"
  job_active :: "bool option"
  job_allowRecurse :: bool
  job_body :: "sched_action list"

record sched =
  jobs :: "jid \<Rightarrow> job"
  queue :: "jid list"
  flushIndex :: nat
  isFlushing :: bool
  isFlushPending :: bool
  pendingPreFlushCbs :: "jid list"
  activePreFlushCbs :: "jid list option"
  preFlushIndex :: nat
  pendingPostFlushCbs :: "jid list"
  activePostFlushCbs :: "jid list option"
  postFlushIndex :: nat
  currentPreFlushParentJob :: "jid option"
  seen :: "jid \<Rightarrow> nat option"
  executed :: "jid list"

text \<open>\<open>getId\<close>: \<open>None\<close> is \<open>Infinity\<close>.\<close>

definition getId :: "sched \<Rightarrow> jid \<Rightarrow> int option" where
  "getId s j = job_id (jobs s j)"

text \<open>\<open>middleJobId < id\<close>, for a number \<open>id\<close>.\<close>

fun id_less :: "int option \<Rightarrow> int \<Rightarrow> bool" where
  "id_less None i = False"
| "id_less (Some m) i = (m < i)"

text \<open>
  The comparator \<open>(a, b) => getId(a) - getId(b)\<close> gives a positive number, and so
  puts \<open>a\<close> after \<open>b\<close>, in the cases below; \<open>Infinity - Infinity\<close> is \<open>NaN\<close>,
  which \<open>sort\<close> takes as \<open>0\<close>.
\<close>

fun cmp_positive :: "int option \<Rightarrow> int option \<Rightarrow> bool" where
  "cmp_positive None None = False"
| "cmp_positive None (Some _) = True"
| "cmp_positive (Some _) None = False"
| "cmp_positive (Some a) (Some b) = (b < a)"

text \<open>
  \<open>Array.prototype.sort\<close> is stable; with this comparator its result is the
  stable insertion of the elements from the right.
\<close>

fun insert_job :: "sched \<Rightarrow> jid \<Rightarrow> jid list \<Rightarrow> jid list" where
  "insert_job s x [] = [x]"
| "insert_job s x (y # ys) =
     (if cmp_positive (getId s x) (getId s y) then y # insert_job s x ys else x # y # ys)"

definition sort_jobs :: "sched \<Rightarrow> jid list \<Rightarrow> jid list" where
  "sort_jobs s js = foldr (insert_job s) js []"

text \<open>\<open>findInsertionIndex\<close>; \<open>(start + end) >>> 1\<close> is the half of the sum.\<close>

function findInsertionIndex_loop :: "sched \<Rightarrow> int \<Rightarrow> nat \<Rightarrow> nat \<Rightarrow> nat" where
  "findInsertionIndex_loop s i start end' =
     (if start < end' then
        (let middle = (start + end') div 2 in
         if id_less (getId s (queue s ! middle)) i
         then findInsertionIndex_loop s i (middle + 1) end'
         else findInsertionIndex_loop s i start middle)
      else start)"
  by pat_completeness auto
termination
  by (relation "measure (\<lambda>(s, i, start, end'). end' - start)") auto

declare findInsertionIndex_loop.simps [simp del]

definition findInsertionIndex :: "sched \<Rightarrow> int \<Rightarrow> nat" where
  "findInsertionIndex s i = findInsertionIndex_loop s i (flushIndex s + 1) (length (queue s))"

text \<open>
  \<open>queueFlush\<close>: the flush is handed to the microtask queue; it is pending until
  \<open>flushJobs\<close> is called.
\<close>

definition queueFlush :: "sched \<Rightarrow> sched" where
  "queueFlush s = (if \<not> isFlushing s \<and> \<not> isFlushPending s then s\<lparr>isFlushPending := True\<rparr> else s)"

text \<open>\<open>queue.splice(i, 0, job)\<close>.\<close>

definition splice_in :: "nat \<Rightarrow> 'a \<Rightarrow> 'a list \<Rightarrow> 'a list" where
  "splice_in i x xs = take i xs @ [x] @ drop i xs"

definition queueJob :: "jid \<Rightarrow> sched \<Rightarrow> sched" where
  "queueJob j s =
     (if (queue s = [] \<or>
          j \<notin> set (drop (if isFlushing s \<and> job_allowRecurse (jobs s j)
                           then flushIndex s + 1 else flushIndex s) (queue s))) \<and>
         Some j \<noteq> currentPreFlushParentJob s
      then queueFlush
             (case job_id (jobs s j) of
                None \<Rightarrow> s\<lparr>queue := queue s @ [j]\<rparr>
              | Some i \<Rightarrow> s\<lparr>queue := splice_in (findInsertionIndex s i) j (queue s)\<rparr>)
      else s)"

text \<open>\<open>invalidateJob\<close>: \<open>indexOf\<close> gives the first position of the job.\<close>

fun index_of :: "'a list \<Rightarrow> 'a \<Rightarrow> nat option" where
  "index_of [] x = None"
| "index_of (y # ys) x = (if y = x then Some 0 else map_option Suc (index_of ys x))"

definition invalidateJob :: "jid \<Rightarrow> sched \<Rightarrow> sched" where
  "invalidateJob j s =
     (case index_of (queue s) j of
        None \<Rightarrow> s
      | Some i \<Rightarrow> (if i > flushIndex s then s\<lparr>queue := take i (queue s) @ drop (i + 1) (queue s)\<rparr>
                   else s))"

text \<open>\<open>queueCb\<close> for a single callback.\<close>

definition queuePreFlushCb :: "jid \<Rightarrow> sched \<Rightarrow> sched" where
  "queuePreFlushCb j s =
     queueFlush
       (if (case activePreFlushCbs s of
              None \<Rightarrow> True
            | Some act \<Rightarrow> j \<notin> set (drop (if job_allowRecurse (jobs s j) then preFlushIndex s + 1
                                          else preFlushIndex s) act))
        then s\<lparr>pendingPreFlushCbs := pendingPreFlushCbs s @ [j]\<rparr> else s)"

definition queuePostFlushCb :: "jid \<Rightarrow> sched \<Rightarrow> sched" where
  "queuePostFlushCb j s =
     queueFlush
       (if (case activePostFlushCbs s of
              None \<Rightarrow> True
            | Some act \<Rightarrow> j \<notin> set (drop (if job_allowRecurse (jobs s j) then postFlushIndex s + 1
                                          else postFlushIndex s) act))
        then s\<lparr>pendingPostFlushCbs := pendingPostFlushCbs s @ [j]\<rparr> else s)"

text \<open>Calling a job: it is recorded, and its body makes its calls in order.\<close>

fun sched_step :: "sched_action \<Rightarrow> sched \<Rightarrow> sched" where
  "sched_step (QueueJob j) s = queueJob j s"
| "sched_step (QueuePreFlushCb j) s = queuePreFlushCb j s"
| "sched_step (QueuePostFlushCb j) s = queuePostFlushCb j s"
| "sched_step (InvalidateJob j) s = invalidateJob j s"

definition call_job :: "jid \<Rightarrow> sched \<Rightarrow> sched" where
  "call_job j s = fold sched_step (job_body (jobs s j)) (s\<lparr>executed := executed s @ [j]\<rparr>)"

definition RECURSION_LIMIT :: nat where
  "RECURSION_LIMIT = 100"

text \<open>\<open>checkRecursiveUpdates\<close>: whether the job is to be skipped, and the new counts.\<close>

definition checkRecursiveUpdates :: "jid \<Rightarrow> sched \<Rightarrow> bool \<times> sched" where
  "checkRecursiveUpdates j s =
     (case seen s j of
        None \<Rightarrow> (False, s\<lparr>seen := (seen s)(j \<mapsto> 1)\<rparr>)
      | Some c \<Rightarrow> (if c > RECURSION_LIMIT then (True, s)
                   else (False, s\<lparr>seen := (seen s)(j \<mapsto> c + 1)\<rparr>)))"

text \<open>\<open>[...new Set(xs)]\<close>: the first occurrences, in order.\<close>

definition dedupe :: "'a list \<Rightarrow> 'a list" where
  "dedupe xs = foldl set_add [] xs"

text \<open>
  The loop over the active pre-flush callbacks (\<open>dev\<close> is \<open>__DEV__\<close>), and
  \<open>flushPreFlushCbs\<close>, which calls itself until nothing is pending; the first
  argument bounds the number of rounds and of loop iterations.
\<close>

fun flushPre_loop :: "nat \<Rightarrow> bool \<Rightarrow> sched \<Rightarrow> sched option" where
  "flushPre_loop 0 dev s = None"
| "flushPre_loop (Suc k) dev s =
     (case activePreFlushCbs s of
        None \<Rightarrow> Some s
      | Some act \<Rightarrow>
          (if preFlushIndex s < length act then
             (let j = act ! preFlushIndex s;
                  (skip, s1) = (if dev then checkRecursiveUpdates j s else (False, s));
                  s2 = (if skip then s1 else call_job j s1)
              in flushPre_loop k dev (s2\<lparr>preFlushIndex := preFlushIndex s2 + 1\<rparr>))
           else Some s))"

fun flushPreFlushCbs :: "nat \<Rightarrow> bool \<Rightarrow> jid option \<Rightarrow> sched \<Rightarrow> sched option" where
  "flushPreFlushCbs 0 dev parentJob s = None"
| "flushPreFlushCbs (Suc k) dev parentJob s =
     (if pendingPreFlushCbs s \<noteq> [] then
        (case flushPre_loop (Suc k) dev
                (s\<lparr>currentPreFlushParentJob := parentJob,
                   activePreFlushCbs := Some (dedupe (pendingPreFlushCbs s)),
                   pendingPreFlushCbs := [], preFlushIndex := 0\<rparr>) of
           None \<Rightarrow> None
         | Some s1 \<Rightarrow>
             flushPreFlushCbs k dev parentJob
               (s1\<lparr>activePreFlushCbs := None, preFlushIndex := 0,
                   currentPreFlushParentJob := None\<rparr>))
      else Some s)"

fun flushPost_loop :: "nat \<Rightarrow> bool \<Rightarrow> sched \<Rightarrow> sched option" where
  "flushPost_loop 0 dev s = None"
| "flushPost_loop (Suc k) dev s =
     (case activePostFlushCbs s of
        None \<Rightarrow> Some s
      | Some act \<Rightarrow>
          (if postFlushIndex s < length act then
             (let j = act ! postFlushIndex s;
                  (skip, s1) = (if dev then checkRecursiveUpdates j s else (False, s));
                  s2 = (if skip then s1 else call_job j s1)
              in flushPost_loop k dev (s2\<lparr>postFlushIndex := postFlushIndex s2 + 1\<rparr>))
           else Some s))"

definition flushPostFlushCbs :: "nat \<Rightarrow> bool \<Rightarrow> sched \<Rightarrow> sched option" where
  "flushPostFlushCbs k dev s =
     (if pendingPostFlushCbs s \<noteq> [] then
        (let deduped = dedupe (pendingPostFlushCbs s);
             s1 = s\<lparr>pendingPostFlushCbs := []\<rparr>
         in case activePostFlushCbs s1 of
              Some act \<Rightarrow> Some (s1\<lparr>activePostFlushCbs := Some (act @ deduped)\<rparr>)
            | None \<Rightarrow>
                (case flushPost_loop k dev
                        (s1\<lparr>activePostFlushCbs := Some (sort_jobs s1 deduped),
                            postFlushIndex := 0\<rparr>) of
                   None \<Rightarrow> None
                 | Some s2 \<Rightarrow> Some (s2\<lparr>activePostFlushCbs := None, postFlushIndex := 0\<rparr>)))
      else Some s)"

text \<open>The loop of \<open>flushJobs\<close> over the main queue, from the current \<open>flushIndex\<close>.\<close>

fun flush_loop :: "nat \<Rightarrow> bool \<Rightarrow> sched \<Rightarrow> sched option" where
  "flush_loop 0 dev s = None"
| "flush_loop (Suc k) dev s =
     (if flushIndex s < length (queue s) then
        (let j = queue s ! flushIndex s;
             s2 = (if job_active (jobs s j) \<noteq> Some False then
                     (let (skip, s1) = (if dev then checkRecursiveUpdates j s else (False, s))
                      in if skip then s1 else call_job j s1)
                   else s)
         in flush_loop k dev (s2\<lparr>flushIndex := flushIndex s2 + 1\<rparr>))
      else Some s)"

fun flushJobs :: "nat \<Rightarrow> bool \<Rightarrow> sched \<Rightarrow> sched option" where
  "flushJobs 0 dev s = None"
| "flushJobs (Suc k) dev s =
     (case flushPreFlushCbs k dev None (s\<lparr>isFlushPending := False, isFlushing := True\<rparr>) of
        None \<Rightarrow> None
      | Some s1 \<Rightarrow>
          (case flush_loop k dev (s1\<lparr>queue := sort_jobs s1 (queue s1), flushIndex := 0\<rparr>) of
             None \<Rightarrow> None
           | Some s2 \<Rightarrow>
               (case flushPostFlushCbs k dev (s2\<lparr>flushIndex := 0, queue := []\<rparr>) of
                  None \<Rightarrow> None
                | Some s3 \<Rightarrow>
                    (let s4 = s3\<lparr>isFlushing := False\<rparr>
                     in if queue s4 \<noteq> [] \<or> pendingPreFlushCbs s4 \<noteq> [] \<or>
                           pendingPostFlushCbs s4 \<noteq> []
                        then flushJobs k dev s4 else Some s4))))"

text \<open>The flush that the microtask starts: a new \<open>seen\<close> map.\<close>

definition flushJobs_task :: "nat \<Rightarrow> bool \<Rightarrow> sched \<Rightarrow> sched option" where
  "flushJobs_task k dev s = flushJobs k dev (s\<lparr>seen := (\<lambda>_. None)\<rparr>)"

text \<open>The scheduler of the freshly loaded module, for the given jobs.\<close>

definition sched_init :: "(jid \<Rightarrow> job) \<Rightarrow> sched" where
  "sched_init js =
     \<lparr>jobs = js, queue = [], flushIndex = 0, isFlushing = False, isFlushPending = False,
      pendingPreFlushCbs = [], activePreFlushCbs = None, preFlushIndex = 0,
      pendingPostFlushCbs = [], activePostFlushCbs = None, postFlushIndex = 0,
      currentPreFlushParentJob = None, seen = (\<lambda>_. None), executed = []\<rparr>"

text \<open>
  A job that does nothing to the scheduler when it runs, and a job that has not been
  deactivated (\<open>job.active !== false\<close>).
\<close>

definition quiet_job :: "sched \<Rightarrow> jid \<Rightarrow> bool" where
  "quiet_job s j = (job_body (jobs s j) = [])"

definition live_job :: "sched \<Rightarrow> jid \<Rightarrow> bool" where
  "live_job s j = (job_active (jobs s j) \<noteq> Some False)"

text \<open>Jobs whose address is their \<open>id\<close>, except job 0, which has none.\<close>

definition id_jobs :: "jid \<Rightarrow> job" where
  "id_jobs j = \<lparr>job_id = (if j = 0 then None else Some (int j)), job_active = None,
                job_allowRecurse = False, job_body = []\<rparr>"

text \<open>
  Jobs whose address is their \<open>id\<close>, of which job 2 queues job 1 when it runs.
\<close>

definition requeue_jobs :: "jid \<Rightarrow> job" where
  "requeue_jobs j = \<lparr>job_id = Some (int j), job_active = None, job_allowRecurse = False,
                      job_body = (if j = 2 then [QueueJob 1] else [])\<rparr>"

text \<open>\<open>id_le a b\<close>: the identity \<open>a\<close> is at most \<open>b\<close>, no identity being the greatest.\<close>

fun id_le :: "int option \<Rightarrow> int option \<Rightarrow> bool" where
  "id_le (Some a) (Some b) = (a \<le> b)"
| "id_le None (Some b) = False"
| "id_le _ None = True"

section \<open>Running effects: notions used to state the properties\<close>

text \<open>
  \<open>on_chain efs p x\<close>: the effect \<open>x\<close> is met when following the \<open>parent\<close>
  fields from \<open>p\<close>, that is, \<open>x\<close> is \<open>p\<close> or one of its ancestors in the chain of
  the effects being run.
\<close>

inductive on_chain :: "(eid \<Rightarrow> effect) \<Rightarrow> eid option \<Rightarrow> eid \<Rightarrow> bool" for efs where
  here: "on_chain efs (Some x) x"
| up: "on_chain efs (parent (efs p)) x \<Longrightarrow> on_chain efs (Some p) x"

text \<open>
  \<open>same_ctl s s'\<close>: the two states have the same active effect, depth, marker
  bit and record of calls, and their effects differ in their \<open>deps\<close> only.  \<open>frame s s'\<close>: the same, the \<open>parent\<close> fields being those of
  the effects on the chain of \<open>s\<close> only.
\<close>

definition same_ctl :: "rt \<Rightarrow> rt \<Rightarrow> bool" where
  "same_ctl s s' =
     (activeEffect s' = activeEffect s \<and> effectTrackDepth s' = effectTrackDepth s \<and>
      trackOpBit s' = trackOpBit s \<and> trace s' = trace s \<and>
      (\<forall>x. (effects s' x)\<lparr>deps := []\<rparr> = (effects s x)\<lparr>deps := []\<rparr>))"

definition frame :: "rt \<Rightarrow> rt \<Rightarrow> bool" where
  "frame s s' =
     (activeEffect s' = activeEffect s \<and> effectTrackDepth s' = effectTrackDepth s \<and>
      (\<forall>x. on_chain (effects s) (activeEffect s) x \<longrightarrow>
           parent (effects s' x) = parent (effects s x)))"


text \<open>
  \<open>calls e s\<close>: how many times the function of the effect \<open>e\<close> has been called.
  \<open>no_rerun e s s'\<close>: between \<open>s\<close> and \<open>s'\<close> no stopped effect has become active
  again and, if \<open>e\<close> is running in \<open>s\<close> and is not stopped in \<open>s'\<close>, its function has
  not been called.
\<close>

definition calls :: "eid \<Rightarrow> rt \<Rightarrow> nat" where
  "calls e s = count_list (trace s) (FnCalled e)"

definition no_rerun :: "eid \<Rightarrow> rt \<Rightarrow> rt \<Rightarrow> bool" where
  "no_rerun e s s' =
     (frame s s' \<and> (\<forall>x. active (effects s' x) \<longrightarrow> active (effects s x)) \<and>
      (on_chain (effects s) (activeEffect s) e \<and> active (effects s' e) \<longrightarrow>
         calls e s' = calls e s))"

text \<open>
  An effect that reads a property and then writes it, after its first run; and two
  effects of which the first stops itself and runs the second, which runs the first.
\<close>

definition self_trigger_start :: result where
  "self_trigger_start =
     eval 1 (Run 0)
       (rt_init ((\<lambda>_. newEffect [])
                   (0 := newEffect [Track (Target PlainObject 0) (KStr ''a''),
                                    Trigger (Target PlainObject 0) SET (Some (KStr ''a'')) (Some 1)]))
          no_computeds)"

definition stopped_start :: rt where
  "stopped_start =
     rt_init ((\<lambda>_. newEffect [])
                (0 := newEffect [StopEffect 0, RunEffect 1], 1 := newEffect [RunEffect 0]))
       no_computeds"

text \<open>
  The state in which the second effect calls the runner of the first: the first
  effect has been entered and has stopped itself, the second has been entered.
\<close>

definition stopped_inner :: rt where
  "stopped_inner =
     emit (FnCalled 1)
       (run_enter 1
          (upd_effect 0 (\<lambda>ef. ef\<lparr>active := False\<rparr>)
             (cleanupEffect 0 (emit (FnCalled 0) (run_enter 0 stopped_start)))))"

text \<open>A getter that only reads reactive state.\<close>

fun is_read :: "action \<Rightarrow> bool" where
  "is_read (Track _ _) = True"
| "is_read _ = False"

text \<open>
  A computed (0) whose getter (effect 5) reads the property \<open>a\<close> of an object, in the
  freshly loaded runtime; effect 1 reads the computed twice.
\<close>

definition computed_start :: rt where
  "computed_start =
     rt_init ((\<lambda>_. newEffect [])
                (5 := (newEffect [Track (Target PlainObject 0) (KStr ''a'')])
                        \<lparr>scheduler := Some (SchedComputed 0)\<rparr>,
                 1 := newEffect [ReadComputed 0, ReadComputed 0]))
       (no_computeds(0 := \<lparr>cdep = None, ceffect = 5, dirty = True, cacheable = True\<rparr>))"

text \<open>
  The same computed, together with an effect (0) that reads the property \<open>a\<close> and
  stops itself.  The script runs the effect, reads the computed, writes \<open>a\<close> and
  reads the computed again.
\<close>

definition stale_start :: rt where
  "stale_start =
     rt_init ((\<lambda>_. newEffect [])
                (5 := (newEffect [Track (Target PlainObject 0) (KStr ''a'')])
                        \<lparr>scheduler := Some (SchedComputed 0)\<rparr>,
                 0 := newEffect [Track (Target PlainObject 0) (KStr ''a''), StopEffect 0]))
       (no_computeds(0 := \<lparr>cdep = None, ceffect = 5, dirty = True, cacheable = True\<rparr>))"

definition stale_script :: "action list" where
  "stale_script =
     [ReadComputed 0, Trigger (Target PlainObject 0) SET (Some (KStr ''a'')) (Some 1),
      ReadComputed 0]"

text \<open>
  An effect that reads the property \<open>a\<close>, stops itself and then reads the property
  \<open>b\<close>, in the freshly loaded runtime; and an effect with an \<open>onStop\<close> callback that
  has read \<open>a\<close>.
\<close>

definition self_stop_start :: rt where
  "self_stop_start =
     rt_init ((\<lambda>_. newEffect [])
                (0 := newEffect [Track (Target PlainObject 0) (KStr ''a''), StopEffect 0,
                                 Track (Target PlainObject 0) (KStr ''b'')]))
       no_computeds"

definition stop_start :: result where
  "stop_start =
     eval 1 (Run 0)
       (rt_init ((\<lambda>_. newEffect [])
                   (0 := (newEffect [Track (Target PlainObject 0) (KStr ''a'')])
                           \<lparr>onStop := Some []\<rparr>))
          no_computeds)"

section \<open>Properties\<close>

subsection \<open>The finalize pass\<close>

lemma finalize_loop_list:
  "ptr \<le> i \<Longrightarrow> i \<le> length ds \<Longrightarrow>
   (case finalize_loop e tb i ptr ds st of
      (p', ds', st') \<Rightarrow>
        take p' ds' = take ptr ds @ fst (finalize_list e tb (drop i ds) st) \<and>
        st' = snd (finalize_list e tb (drop i ds) st))"
proof (induction e tb i ptr ds st rule: finalize_loop.induct)
  case (1 e tb i ptr ds st)
  show ?case
  proof (cases "i < length ds")
    case False
    with 1(3,4) show ?thesis by (simp add: finalize_loop.simps)
  next
    case True
    note lt = True
    have dr: "drop i ds = ds ! i # drop (Suc i) ds"
      using lt by (simp add: Cons_nth_drop_Suc)
    show ?thesis
    proof (cases "stale st tb (ds ! i)")
      case True
      then have c: "wasTracked (st (ds ! i)) tb \<and> \<not> newTracked (st (ds ! i)) tb"
        by (simp add: stale_def)
      define st1 where
        "st1 = st(ds ! i := clearBits tb ((st (ds ! i))\<lparr>members := set_delete (members (st (ds ! i))) e\<rparr>))"
      have u: "finalize_loop e tb i ptr ds st = finalize_loop e tb (i + 1) ptr ds st1"
        by (subst finalize_loop.simps) (simp only: lt if_True Let_def if_P[OF c] st1_def)
      have l: "finalize_list e tb (drop i ds) st = finalize_list e tb (drop (i + 1) ds) st1"
        using True by (simp add: dr st1_def)
      have ih: "(case finalize_loop e tb (i + 1) ptr ds st1 of
           (p', ds', st') \<Rightarrow>
             take p' ds' = take ptr ds @ fst (finalize_list e tb (drop (i + 1) ds) st1) \<and>
             st' = snd (finalize_list e tb (drop (i + 1) ds) st1))"
        unfolding st1_def using 1(3) lt by (intro 1(1)[OF lt refl c]) simp_all
      show ?thesis unfolding u l by (rule ih)
    next
      case False
      then have c: "\<not> (wasTracked (st (ds ! i)) tb \<and> \<not> newTracked (st (ds ! i)) tb)"
        by (simp add: stale_def)
      define st1 where "st1 = st(ds ! i := clearBits tb (st (ds ! i)))"
      define ds1 where "ds1 = ds[ptr := ds ! i]"
      have t: "take (ptr + 1) ds1 = take ptr ds @ [ds ! i]"
        using 1(3) lt by (simp add: take_Suc_conv_app_nth ds1_def)
      have d: "drop (i + 1) ds1 = drop (i + 1) ds"
        using 1(3) by (simp add: ds1_def)
      have u: "finalize_loop e tb i ptr ds st = finalize_loop e tb (i + 1) (ptr + 1) ds1 st1"
        by (subst finalize_loop.simps) (simp only: lt if_True Let_def if_not_P[OF c] st1_def ds1_def)
      have ih: "(case finalize_loop e tb (i + 1) (ptr + 1) ds1 st1 of
           (p', ds', st') \<Rightarrow>
             take p' ds' = take (ptr + 1) ds1 @ fst (finalize_list e tb (drop (i + 1) ds1) st1) \<and>
             st' = snd (finalize_list e tb (drop (i + 1) ds1) st1))"
        unfolding st1_def ds1_def using 1(3) lt by (intro 1(2)[OF lt refl c]) simp_all
      have l: "finalize_list e tb (drop i ds) st =
                 (ds ! i # fst (finalize_list e tb (drop (i + 1) ds) st1),
                  snd (finalize_list e tb (drop (i + 1) ds) st1))"
        using False by (simp add: dr st1_def split: prod.splits)
      show ?thesis using ih unfolding u l t d by (simp split: prod.splits)
    qed
  qed
qed

lemma stale_upd_other: "d' \<noteq> d \<Longrightarrow> stale (st(d := x)) tb d' = stale st tb d'"
  by (simp add: stale_def)

lemma finalize_list_distinct:
  "distinct ds \<Longrightarrow>
   finalize_list e tb ds st =
     (filter (\<lambda>d. \<not> stale st tb d) ds,
      (\<lambda>d. if d \<in> set ds then finalized e tb st d else st d))"
proof (induction ds arbitrary: st)
  case Nil
  then show ?case by simp
next
  case (Cons d ds)
  then have nd: "d \<notin> set ds" and di: "distinct ds" by simp_all
  have f: "filter (\<lambda>d'. \<not> stale (st(d := x)) tb d') ds = filter (\<lambda>d'. \<not> stale st tb d') ds" for x
    using nd by (intro filter_cong refl) (metis stale_upd_other)
  have g: "(\<lambda>d'. if d' \<in> set ds then finalized e tb (st(d := x)) d' else (st(d := x)) d') =
           (\<lambda>d'. if d' \<in> set (d # ds) then (if d' = d then x else finalized e tb st d') else st d')" for x
    using nd by (auto simp: fun_eq_iff finalized_def stale_upd_other)
  show ?case
  proof (cases "stale st tb d")
    case True
    define x where "x = clearBits tb ((st d)\<lparr>members := set_delete (members (st d)) e\<rparr>)"
    have "finalize_list e tb (d # ds) st = finalize_list e tb ds (st(d := x))"
      using True by (simp add: x_def)
    also have "\<dots> = (filter (\<lambda>d'. \<not> stale (st(d := x)) tb d') ds,
        (\<lambda>d'. if d' \<in> set ds then finalized e tb (st(d := x)) d' else (st(d := x)) d'))"
      by (rule Cons.IH[OF di])
    also have "\<dots> = (filter (\<lambda>d'. \<not> stale st tb d') (d # ds),
        (\<lambda>d'. if d' \<in> set (d # ds) then finalized e tb st d' else st d'))"
      unfolding f g using True by (auto simp: fun_eq_iff finalized_def x_def)
    finally show ?thesis .
  next
    case False
    define x where "x = clearBits tb (st d)"
    have "finalize_list e tb (d # ds) st =
        (d # fst (finalize_list e tb ds (st(d := x))), snd (finalize_list e tb ds (st(d := x))))"
      using False by (simp add: x_def split: prod.splits)
    also have "finalize_list e tb ds (st(d := x)) = (filter (\<lambda>d'. \<not> stale (st(d := x)) tb d') ds,
        (\<lambda>d'. if d' \<in> set ds then finalized e tb (st(d := x)) d' else (st(d := x)) d'))"
      by (rule Cons.IH[OF di])
    finally show ?thesis
      unfolding f g using False by (auto simp: fun_eq_iff finalized_def x_def)
  qed
qed

lemma not_tracked_clearBits:
  "\<not> wasTracked (clearBits tb dp) tb" "\<not> newTracked (clearBits tb dp) tb"
  by (simp_all add: wasTracked_def newTracked_def clearBits_def word_bw_assocs)

lemma finalizeDepMarkers_eq:
  assumes "distinct (deps (effects s e))"
  shows "finalizeDepMarkers e s =
     s\<lparr>depStore := (\<lambda>d. if d \<in> set (deps (effects s e))
                          then finalized e (trackOpBit s) (depStore s) d else depStore s d),
       effects := (effects s)(e := (effects s e)
          \<lparr>deps := filter (\<lambda>d. \<not> stale (depStore s) (trackOpBit s) d) (deps (effects s e))\<rparr>)\<rparr>"
proof (cases "deps (effects s e) = []")
  case True
  have "(effects s e)\<lparr>deps := deps (effects s e)\<rparr> = effects s e" by simp
  with True have a: "(effects s e)\<lparr>deps := []\<rparr> = effects s e" by simp
  have b: "s\<lparr>effects := (effects s)(e := (effects s e)\<lparr>deps := []\<rparr>)\<rparr> = s"
    by (simp only: a fun_upd_triv) simp
  show ?thesis using True by (simp add: finalizeDepMarkers_def b del: fun_upd_apply)
next
  case False
  obtain p ds' st' where r: "finalize_loop e (trackOpBit s) 0 0 (deps (effects s e)) (depStore s) = (p, ds', st')"
    by (cases "finalize_loop e (trackOpBit s) 0 0 (deps (effects s e)) (depStore s)") auto
  from finalize_loop_list[of 0 0 "deps (effects s e)" e "trackOpBit s" "depStore s"] r
  have "take p ds' = fst (finalize_list e (trackOpBit s) (deps (effects s e)) (depStore s))"
    and "st' = snd (finalize_list e (trackOpBit s) (deps (effects s e)) (depStore s))"
    by simp_all
  with finalize_list_distinct[OF assms, of e "trackOpBit s" "depStore s"] r False
  show ?thesis by (simp add: finalizeDepMarkers_def upd_effect_def Let_def)
qed

text \<open>
  Claim C7.  The finalize pass at the end of a run, on the list of entries of the
  effect (which holds each entry once): the effect is deleted from exactly the
  entries of the list that are stale for the current marker bit (was-tracked set,
  newly-tracked not set) and from no other entry; the entries that are not stale
  are kept at the front of the list, in their order, and the list is cut after them;
  both marker bits of every entry of the list are cleared; entries outside the list
  are untouched.
\<close>

theorem finalizeDepMarkers_removes_stale:
  "distinct (deps (effects s e)) \<Longrightarrow>
   deps (effects (finalizeDepMarkers e s) e) =
     filter (\<lambda>d. \<not> stale (depStore s) (trackOpBit s) d) (deps (effects s e)) \<and>
   (\<forall>d. members (depStore (finalizeDepMarkers e s) d) =
      (if d \<in> set (deps (effects s e)) \<and> stale (depStore s) (trackOpBit s) d
       then set_delete (members (depStore s d)) e else members (depStore s d))) \<and>
   (\<forall>d. d \<in> set (deps (effects s e)) \<longrightarrow>
      w (depStore (finalizeDepMarkers e s) d) = w (depStore s d) AND NOT (trackOpBit s) \<and>
      n (depStore (finalizeDepMarkers e s) d) = n (depStore s d) AND NOT (trackOpBit s) \<and>
      \<not> wasTracked (depStore (finalizeDepMarkers e s) d) (trackOpBit s) \<and>
      \<not> newTracked (depStore (finalizeDepMarkers e s) d) (trackOpBit s)) \<and>
   (\<forall>d. d \<notin> set (deps (effects s e)) \<longrightarrow>
      depStore (finalizeDepMarkers e s) d = depStore s d)"
  by (simp add: finalizeDepMarkers_eq finalized_def not_tracked_clearBits)
     (simp add: clearBits_def)

theorem finalizeDepMarkers_removes_stale_witness:
  "distinct (deps (effects fin_example 7)) \<and>
   deps (effects fin_example 7) = [0, 1, 2] \<and>
   deps (effects (finalizeDepMarkers 7 fin_example) 7) = [0, 2] \<and>
   members (depStore (finalizeDepMarkers 7 fin_example) 0) = [7] \<and>
   members (depStore (finalizeDepMarkers 7 fin_example) 1) = [8] \<and>
   members (depStore (finalizeDepMarkers 7 fin_example) 2) = [7] \<and>
   w (depStore (finalizeDepMarkers 7 fin_example) 1) = 0"
proof -
  have h: "distinct (deps (effects fin_example 7))"
    by (simp add: fin_example_def newEffect_def rt_init_def)
  show ?thesis
    using finalizeDepMarkers_removes_stale[OF h]
    by (simp add: fin_example_def newEffect_def rt_init_def stale_def wasTracked_def
        newTracked_def set_delete_def createDep_def)
qed

subsection \<open>Unfolding the definitions on concrete states\<close>

lemma finalize_loop_step:
  "i < length ds \<Longrightarrow> finalize_loop e tb i ptr ds st =
        (let d = ds ! i in
         if wasTracked (st d) tb \<and> \<not> newTracked (st d) tb
         then finalize_loop e tb (i + 1) ptr ds
                (st(d := clearBits tb ((st d)\<lparr>members := set_delete (members (st d)) e\<rparr>)))
         else finalize_loop e tb (i + 1) (ptr + 1) (ds[ptr := d])
                (st(d := clearBits tb (st d))))"
  by (subst finalize_loop.simps) simp

lemma finalize_loop_done:
  "\<not> i < length ds \<Longrightarrow> finalize_loop e tb i ptr ds st = (ptr, ds, st)"
  by (subst finalize_loop.simps) simp

lemmas rt_eval = rt_init_def newEffect_def no_computeds_def
  run_enter_def run_finally_def track_def trackEffects_def initDepMarkers_def
  finalizeDepMarkers_def cleanupEffect_def trackRefValue_def refValue_effects_def
  emit_def upd_effect_def upd_dep_def upd_computed_def maxMarkerBits_def shl1_def
  createDep_def wasTracked_def newTracked_def set_add_def set_delete_def
  finalize_loop_step finalize_loop_done clearBits_def Let_def
  trigger_def trigger_effects_def collect_deps_def effects_of_deps_def
  pauseTracking_def enableTracking_def resetTracking_def

subsection \<open>Writes to the length of an array\<close>

lemmas str_eval = StringToNumber_def trim_def is_ws_def non_decimal_def signed_body_def
  unsigned_decimal_def exponent_part_def is_exp_def is_digit_def dec_value_def digit_of_def
  index_of_string_def isIntegerKey_def Let_def

text \<open>The number of an index is the index.\<close>

lemma digit_not_ws: "is_digit c \<Longrightarrow> \<not> is_ws c"
  by (auto simp: is_digit_def is_ws_def)

lemma trim_digits:
  assumes "s \<noteq> []" "list_all is_digit s"
  shows "trim s = s"
proof -
  from assms have a: "\<not> is_ws (hd s)" by (cases s) (auto simp: digit_not_ws)
  from assms have b: "\<not> is_ws (last s)"
    by (metis digit_not_ws last_in_set list_all_iff)
  from a assms(1) have 1: "dropWhile is_ws s = s" by (cases s) auto
  from b assms(1) have 2: "dropWhile is_ws (rev s) = rev s"
    by (cases "rev s") (auto simp: hd_rev dest: arg_cong[where f = hd])
  show ?thesis by (simp add: trim_def 1 2)
qed

lemma index_string_number:
  assumes "index_of_string s = Some i"
  shows "StringToNumber s = SFin False i 0"
proof -
  from assms have ne: "s \<noteq> []" and ad: "list_all is_digit s" and i: "i = dec_value s"
    by (auto simp: index_of_string_def split: if_splits)
  obtain c cs where s: "s = c # cs" using ne by (cases s) auto
  from ad s have dc: "is_digit c" by simp
  have nd: "non_decimal s = None"
  proof (cases cs)
    case Nil
    with s show ?thesis by (simp add: non_decimal_def)
  next
    case (Cons d ds)
    with ad s have "is_digit d" by simp
    then have "d \<noteq> CHR ''x''" "d \<noteq> CHR ''X''" "d \<noteq> CHR ''o''" "d \<noteq> CHR ''O''"
      "d \<noteq> CHR ''b''" "d \<noteq> CHR ''B''"
      by (auto simp: is_digit_def)
    with s Cons show ?thesis by (simp add: non_decimal_def)
  qed
  from dc have "c \<noteq> CHR ''-''" "c \<noteq> CHR ''+''" by (auto simp: is_digit_def)
  with s have sb: "signed_body s = (False, s)" by (simp add: signed_body_def)
  from dc s have ni: "s \<noteq> ''Infinity''" by (auto simp: is_digit_def)
  have e: "\<forall>x \<in> set s. \<not> is_exp x" using ad by (auto simp: list_all_iff is_digit_def is_exp_def)
  have d: "\<forall>x \<in> set s. x \<noteq> CHR ''.''" using ad by (auto simp: list_all_iff is_digit_def)
  have tw1: "takeWhile (\<lambda>c. \<not> is_exp c) s = s" using e by (simp add: takeWhile_eq_all_conv)
  have dw1: "dropWhile (\<lambda>c. \<not> is_exp c) s = []" using e by (simp add: dropWhile_eq_Nil_conv)
  have tw2: "takeWhile (\<lambda>c. c \<noteq> CHR ''.'') s = s" using d by (simp add: takeWhile_eq_all_conv)
  have dw2: "dropWhile (\<lambda>c. c \<noteq> CHR ''.'') s = []" using d by (simp add: dropWhile_eq_Nil_conv)
  have ud: "unsigned_decimal s = Some (dec_value s, 0)"
    by (simp add: unsigned_decimal_def tw1 dw1 tw2 dw2 Let_def ad ne exponent_part_def)
  show ?thesis
    by (simp add: StringToNumber_def trim_digits[OF ne ad] ne nd sb ni ud i Let_def)
qed

text \<open>
  Strings that are numbers without being indices: the empty string is \<open>0\<close>, and
  \<open>Infinity\<close> and \<open>1.5\<close> are compared by their value.
\<close>

lemma key_ge_numeric_strings:
  "key_ge (KStr []) (Some 0) = Some True"
  "key_ge (KStr ''Infinity'') (Some 0) = Some True"
  "key_ge (KStr ''1.5'') (Some 1) = Some True"
  "key_ge (KStr ''1.5'') (Some 2) = Some False"
  "key_ge (KStr ''0x10'') (Some 16) = Some True"
  "key_ge (KStr ''-1'') (Some 0) = Some False"
  "key_ge (KStr ''name'') (Some 0) = Some False"
  "key_ge (KStr ''3'') (Some 2) = Some True"
  by (simp_all add: str_eval)

lemma key_ge_index_or_name:
  assumes "index_or_name k" and "k \<noteq> KStr ''length''"
  shows "key_ge k nv = Some (length_notifies nv k)"
proof -
  from assms(1) obtain s where k: "k = KStr s" by (cases k) auto
  show ?thesis
  proof (cases nv)
    case None
    with k assms(2) show ?thesis by (simp add: length_notifies_def split: option.splits)
  next
    case (Some v)
    show ?thesis
    proof (cases "index_of_string s")
      case None
      with assms k have "StringToNumber s = SNaN" by simp
      with k Some None assms(2) show ?thesis by (simp add: length_notifies_def)
    next
      case (Some i)
      from index_string_number[OF this] k \<open>nv = Some v\<close> Some assms(2) show ?thesis
        by (simp add: length_notifies_def)
    qed
  qed
qed

lemma length_deps_strings:
  "\<forall>k \<in> fst ` set m. index_or_name k \<Longrightarrow>
   length_deps m nv acc = Some (acc @ map (\<lambda>(k, d). Some d) (filter (\<lambda>(k, d). length_notifies nv k) m))"
proof (induction m arbitrary: acc)
  case Nil
  then show ?case by simp
next
  case (Cons kd m)
  obtain k d where kd: "kd = (k, d)" by (cases kd)
  from Cons.prems kd have ns: "index_or_name k" and rest: "\<forall>k \<in> fst ` set m. index_or_name k"
    by auto
  show ?case
  proof (cases "k = KStr ''length''")
    case True
    then show ?thesis using Cons.IH[OF rest] kd by (simp add: length_notifies_def)
  next
    case False
    from key_ge_index_or_name[OF ns False, of nv] False show ?thesis
      using Cons.IH[OF rest] kd by simp
  qed
qed

lemma length_deps_symbol:
  "\<exists>k \<in> fst ` set m. is_symbol k \<Longrightarrow> length_deps m nv acc = None"
proof (induction m arbitrary: acc)
  case Nil
  then show ?case by simp
next
  case (Cons kd m)
  obtain k d where kd: "kd = (k, d)" by (cases kd)
  show ?case
  proof (cases "is_symbol k")
    case True
    then obtain x where "k = KSym x" by (cases k) auto
    then show ?thesis using kd by simp
  next
    case False
    with Cons.prems kd have "\<exists>k \<in> fst ` set m. is_symbol k" by auto
    from Cons.IH[OF this] kd show ?thesis
      by (cases k) (auto split: option.splits)
  qed
qed

text \<open>
  On an array whose tracked keys are \<open>length\<close>, indices and names that are not
  numbers, \<open>trigger\<close> with the key \<open>length\<close> hands to \<open>triggerEffects\<close> the
  members of exactly the entries whose key is \<open>length\<close> or an index not below the
  new length.
\<close>

lemma collect_deps_length:
  "isArray t \<Longrightarrow> ty \<noteq> CLEAR \<Longrightarrow> \<forall>k \<in> fst ` set m. index_or_name k \<Longrightarrow>
   collect_deps m t ty (Some (KStr ''length'')) nv =
     Some (map (\<lambda>(k, d). Some d) (filter (\<lambda>(k, d). length_notifies nv k) m))"
  by (simp add: collect_deps_def length_deps_strings)

text \<open>
  The example: after \<open>length = 2\<close> the effect that read index 3 has run a second
  time and the effect that read index 0 has not.
\<close>

lemma trigger_length_example:
  "(case shrink_start of
      Some (out, s) \<Rightarrow>
        trace s = [FnCalled 0, FnCalled 1] \<and>
        map_option (\<lambda>(out', s'). (out', trace s'))
          (trigger 1 arr SET (Some (KStr ''length'')) (Some 2) s) =
        Some (Normal, [FnCalled 0, FnCalled 1, FnCalled 0])
    | None \<Rightarrow> False)"
  by (simp add: rt_eval str_eval shrink_start_def shrink_effects_def arr_def)

text \<open>
  Claim C1 fails when the array has a tracked symbol key.  Effect 0 has read index
  3 and effect 2 has read a symbol-keyed property of the same array; on
  \<open>length = 2\<close> the comparison of the symbol with the new length throws inside
  \<open>trigger\<close>, no effect is notified, and effect 0 is not run again.
\<close>

theorem trigger_length_symbol_key_throws:
  "(case shrink_start_sym of
      Some (out, s) \<Rightarrow>
        targetMap s arr = Some [(KStr ''3'', 0), (KStr ''0'', 1), (KSym 7, 2)] \<and>
        members (depStore s 0) = [0] \<and>
        trace s = [FnCalled 0, FnCalled 1, FnCalled 2] \<and>
        map_option (\<lambda>(out', s'). (out', trace s'))
          (trigger 1 arr SET (Some (KStr ''length'')) (Some 2) s) =
        Some (Thrown, [FnCalled 0, FnCalled 1, FnCalled 2])
    | None \<Rightarrow> False)"
  by (simp add: rt_eval str_eval shrink_start_sym_def shrink_effects_def arr_def)

subsection \<open>Writes through a reactive wrapper\<close>

text \<open>
  \<open>hadKey\<close> of the \<open>set\<close> trap computes what the spec calls the key having
  existed.
\<close>

lemma hadKey_existed:
  assumes "js_ops env"
  shows "hadKey env h target k = key_existed h target k"
proof (cases "h target")
  case (PlainObj ps)
  with assms show ?thesis
    by (auto simp: js_ops_def hadKey_def key_existed_def js_hasOwn_def js_isArray_def
        map_of_eq_None_iff)
next
  case (ArrayObj xs ps)
  with assms show ?thesis
    by (cases "key_index k")
       (auto simp: js_ops_def hadKey_def key_existed_def js_hasOwn_def js_isArray_def
          js_length_def isIntegerKey_def map_of_eq_None_iff)
next
  case (RefCell x y)
  with assms show ?thesis
    by (simp add: js_ops_def hadKey_def key_existed_def js_hasOwn_def js_isArray_def)
next
  case (ReactiveProxy x y z)
  with assms show ?thesis
    by (simp add: js_ops_def hadKey_def key_existed_def js_hasOwn_def js_isArray_def)
qed

text \<open>
  Claim C5.  When the \<open>set\<close> trap returns: every \<open>trigger\<close> it has called is
  for its own target and key, was made with the target being the raw object of
  the receiver, and is a \<open>SET\<close> when the key existed and an \<open>ADD\<close> when it did
  not, a \<open>SET\<close> only with a new value that differs from the old one (an equality
  under which \<open>NaN\<close> equals \<open>NaN\<close>); a write of the value that an existing key
  already holds calls nothing; a write of another value to an existing key, with
  the target being the raw object of the receiver, calls \<open>trigger\<close> once, with
  \<open>SET\<close>; and a write to a key that did not exist, with the target being the raw
  object of the receiver, calls \<open>trigger\<close> once, with \<open>ADD\<close> (the last two when
  no ref is involved).
\<close>

theorem createSetter_notification:
  assumes "js_ops env"
    and "createSetter env shallow h target k v receiver = Some (res, h', evs)"
  shows
   "(\<forall>t ty k' nv ov. TriggerCall t ty k' nv ov \<in> set evs \<longrightarrow>
      t = target \<and> k' = k \<and> toRaw env h' receiver = VObject target \<and>
      (ty = SET \<and> key_existed h target k \<and> hasChanged nv ov \<and> nv \<noteq> ov \<or>
       ty = ADD \<and> \<not> key_existed h target k)) \<and>
    \<not> hasChanged (VNumber NaN) (VNumber NaN) \<and>
    (key_existed h target k \<and> js_getProp h target k = v \<longrightarrow> evs = []) \<and>
    (key_existed h target k \<and> js_getProp h target k \<noteq> v \<and>
     toRaw env h v = v \<and> toRaw env h (js_getProp h target k) = js_getProp h target k \<and>
     \<not> isRef env h (js_getProp h target k) \<and> toRaw env h' receiver = VObject target \<longrightarrow>
       evs = [TriggerCall target SET k v (js_getProp h target k)]) \<and>
    (\<not> key_existed h target k \<and>
     \<not> isRef env h (js_getProp h target k) \<and>
     \<not> isRef env h (toRaw env h (js_getProp h target k)) \<and>
     toRaw env h' receiver = VObject target \<longrightarrow>
       (\<exists>nv. evs = [TriggerCall target ADD k nv VUndefined]))"
proof -
  from assms(1) have g: "getProp env = js_getProp" by (simp add: js_ops_def)
  note hk = hadKey_existed[OF assms(1), of h target k]
  from assms(2) show ?thesis
    unfolding createSetter_def Let_def hk g
    by (auto simp: hasChanged_def split: if_splits option.splits prod.splits)
qed

theorem createSetter_notification_witness:
  "js_ops ex_env \<and>
   createSetter ex_env False ex_heap 0 (KStr ''count'') (VNumber NaN) (VObject 1) =
     Some (True, ex_heap(0 := PlainObj [(KStr ''count'', VNumber NaN)]), []) \<and>
   key_existed ex_heap 0 (KStr ''count'') \<and>
   js_getProp ex_heap 0 (KStr ''count'') = VNumber NaN"
proof -
  have o: "js_ops ex_env" by (simp add: js_ops_def ex_env_def)
  have c: "createSetter ex_env False ex_heap 0 (KStr ''count'') (VNumber NaN) (VObject 1) =
     Some (True, ex_heap(0 := PlainObj [(KStr ''count'', VNumber NaN)]), [])"
    by (simp add: createSetter_def ex_env_def ex_heap_def js_getProp_def ex_toRaw_def
        ex_reflectSet_def hadKey_def js_hasOwn_def js_isArray_def hasChanged_def Let_def)
  show ?thesis
    using createSetter_notification[OF o c] o c
    by (simp add: ex_heap_def js_getProp_def key_existed_def)
qed

text \<open>
  Writes through the proxy of \<open>{count: NaN}\<close>: of another value, of a new key, and
  with a receiver that is not the proxy.  Writes through the proxy of
  \<open>[1, , 3]\<close>: to the hole at index 1, which is within the length, and to index 3,
  which is not.
\<close>

lemma createSetter_examples:
  "createSetter ex_env False ex_heap 0 (KStr ''count'') (VNumber (Num 1)) (VObject 1) =
     Some (True, ex_heap(0 := PlainObj [(KStr ''count'', VNumber (Num 1))]),
           [TriggerCall 0 SET (KStr ''count'') (VNumber (Num 1)) (VNumber NaN)])"
  "createSetter ex_env False ex_heap 0 (KStr ''other'') (VNumber (Num 1)) (VObject 1) =
     Some (True, ex_heap(0 := PlainObj [(KStr ''count'', VNumber NaN), (KStr ''other'', VNumber (Num 1))]),
           [TriggerCall 0 ADD (KStr ''other'') (VNumber (Num 1)) VUndefined])"
  "createSetter ex_env False ex_heap 0 (KStr ''count'') (VNumber (Num 1)) (VObject 2) =
     Some (True, ex_heap(2 := PlainObj [(KStr ''count'', VNumber (Num 1))]), [])"
  "createSetter ex_env False ex_heap 3 (KStr ''1'') (VNumber (Num 5)) (VObject 4) =
     Some (True,
           ex_heap(3 := ArrayObj [Some (VNumber (Num 1)), Some (VNumber (Num 5)), Some (VNumber (Num 3))] []),
           [TriggerCall 3 SET (KStr ''1'') (VNumber (Num 5)) VUndefined])"
  "createSetter ex_env False ex_heap 3 (KStr ''3'') (VNumber (Num 5)) (VObject 4) =
     Some (True,
           ex_heap(3 := ArrayObj [Some (VNumber (Num 1)), None, Some (VNumber (Num 3)),
                                  Some (VNumber (Num 5))] []),
           [TriggerCall 3 ADD (KStr ''3'') (VNumber (Num 5)) VUndefined])"
  by (simp_all add: createSetter_def ex_env_def ex_heap_def js_getProp_def ex_toRaw_def
        ex_reflectSet_def hadKey_def js_hasOwn_def js_isArray_def js_length_def hasChanged_def
        str_eval)


subsection \<open>Writes through a read-only wrapper\<close>

text \<open>
  Claim C9.  A write or a delete through a read-only wrapper returns \<open>true\<close>,
  leaves the heap (and so the raw object) as it was, and calls neither \<open>trigger\<close>
  nor \<open>track\<close>.
\<close>

theorem readonly_write_rejected:
  "fst (readonly_set dev h target k v receiver) = True \<and>
   fst (snd (readonly_set dev h target k v receiver)) = h \<and>
   filter is_trigger (snd (snd (readonly_set dev h target k v receiver))) = [] \<and>
   filter is_track (snd (snd (readonly_set dev h target k v receiver))) = [] \<and>
   fst (readonly_deleteProperty dev h target k) = True \<and>
   fst (snd (readonly_deleteProperty dev h target k)) = h \<and>
   filter is_trigger (snd (snd (readonly_deleteProperty dev h target k))) = [] \<and>
   filter is_track (snd (snd (readonly_deleteProperty dev h target k))) = []"
  by (simp add: readonly_set_def readonly_deleteProperty_def)

subsection \<open>The order of the jobs in a flush\<close>

lemma cmp_positive_id_le: "cmp_positive a b = (\<not> id_le a b)"
  by (cases a; cases b) auto

lemma id_le_trans: "id_le a b \<Longrightarrow> id_le b c \<Longrightarrow> id_le a c"
  by (cases a; cases b; cases c) auto

lemma id_le_total: "\<not> id_le a b \<Longrightarrow> id_le b a"
  by (cases a; cases b) auto

lemma mset_insert_job: "mset (insert_job s x ys) = add_mset x (mset ys)"
  by (induction ys) auto

lemma set_insert_job: "set (insert_job s x ys) = insert x (set ys)"
  by (induction ys) auto

lemma sorted_insert_job:
  "sorted_wrt (\<lambda>a b. id_le (getId s a) (getId s b)) ys \<Longrightarrow>
   sorted_wrt (\<lambda>a b. id_le (getId s a) (getId s b)) (insert_job s x ys)"
proof (induction ys)
  case Nil
  then show ?case by simp
next
  case (Cons y ys)
  show ?case
  proof (cases "id_le (getId s x) (getId s y)")
    case True
    then have "\<forall>z \<in> set ys. id_le (getId s x) (getId s z)"
      using Cons.prems by (auto intro: id_le_trans)
    with True Cons.prems show ?thesis by (simp add: cmp_positive_id_le)
  next
    case False
    then have "id_le (getId s y) (getId s x)" by (rule id_le_total)
    with False Cons show ?thesis
      by (auto simp: cmp_positive_id_le set_insert_job)
  qed
qed

lemma mset_sort_jobs: "mset (sort_jobs s js) = mset js"
  by (induction js) (simp_all add: sort_jobs_def mset_insert_job)

lemma sorted_sort_jobs:
  "sorted_wrt (\<lambda>a b. id_le (getId s a) (getId s b)) (sort_jobs s js)"
  by (induction js) (simp_all add: sort_jobs_def sorted_insert_job)

lemma sort_jobs_cong:
  "jobs s' = jobs s \<Longrightarrow> sort_jobs s' js = sort_jobs s js"
proof -
  assume j: "jobs s' = jobs s"
  have "insert_job s' x ys = insert_job s x ys" for x ys
    by (induction ys) (simp_all add: getId_def j)
  then have "insert_job s' = insert_job s" by (simp add: fun_eq_iff)
  then show ?thesis by (simp add: sort_jobs_def)
qed

text \<open>
  The loop over the main queue, when the jobs still to run do nothing to the
  scheduler and have not been counted yet: those that are not deactivated are called
  one after the other, in the order of the queue.
\<close>

lemma flush_loop_quiet:
  "\<forall>j \<in> set (drop (flushIndex s) (queue s)). quiet_job s j \<and> seen s j = None \<Longrightarrow>
   distinct (drop (flushIndex s) (queue s)) \<Longrightarrow>
   length (queue s) - flushIndex s < k \<Longrightarrow>
   \<exists>s'. flush_loop k dev s = Some s' \<and>
        executed s' = executed s @ filter (live_job s) (drop (flushIndex s) (queue s)) \<and>
        s' = s\<lparr>flushIndex := flushIndex s', seen := seen s', executed := executed s'\<rparr>"
proof (induction k arbitrary: s)
  case 0
  then show ?case by simp
next
  case (Suc k)
  show ?case
  proof (cases "flushIndex s < length (queue s)")
    case False
    then show ?thesis by simp
  next
    case True
    define j where "j = queue s ! flushIndex s"
    have dr: "drop (flushIndex s) (queue s) = j # drop (Suc (flushIndex s)) (queue s)"
      using True by (simp add: Cons_nth_drop_Suc j_def)
    from Suc.prems(1) dr have qj: "quiet_job s j" and sj: "seen s j = None" by auto
    from Suc.prems(2) dr have jn: "j \<notin> set (drop (Suc (flushIndex s)) (queue s))"
      and di: "distinct (drop (Suc (flushIndex s)) (queue s))" by auto
    define s2 where "s2 =
        (if live_job s j
         then (if dev then s\<lparr>seen := (seen s)(j \<mapsto> 1)\<rparr> else s)\<lparr>executed := executed s @ [j]\<rparr>
         else s)\<lparr>flushIndex := flushIndex s + 1\<rparr>"
    have step: "flush_loop (Suc k) dev s = flush_loop k dev s2"
      using True qj sj
      by (cases dev; cases "live_job s j")
         (simp_all add: j_def[symmetric] quiet_job_def live_job_def checkRecursiveUpdates_def
            call_job_def s2_def Let_def)
    have q2: "queue s2 = queue s" and f2: "flushIndex s2 = Suc (flushIndex s)"
      and j2: "jobs s2 = jobs s"
      and e2: "executed s2 = executed s @ (if live_job s j then [j] else [])"
      by (simp_all add: s2_def)
    have l2: "live_job s2 = live_job s" by (simp add: fun_eq_iff live_job_def j2)
    have p1: "\<forall>j' \<in> set (drop (flushIndex s2) (queue s2)). quiet_job s2 j' \<and> seen s2 j' = None"
    proof
      fix j' assume a: "j' \<in> set (drop (flushIndex s2) (queue s2))"
      then have m: "j' \<in> set (drop (Suc (flushIndex s)) (queue s))" by (simp add: q2 f2)
      then have "j' \<in> set (drop (flushIndex s) (queue s))" using dr by simp
      with Suc.prems(1) have "quiet_job s j'" "seen s j' = None" by auto
      moreover from m jn have "j' \<noteq> j" by auto
      ultimately show "quiet_job s2 j' \<and> seen s2 j' = None"
        by (simp add: quiet_job_def s2_def)
    qed
    have p2: "distinct (drop (flushIndex s2) (queue s2))" using di by (simp add: q2 f2)
    have p3: "length (queue s2) - flushIndex s2 < k" using Suc.prems(3) True by (simp add: q2 f2)
    from Suc.IH[OF p1 p2 p3] obtain s' where
      r: "flush_loop k dev s2 = Some s'"
      and e: "executed s' = executed s2 @ filter (live_job s2) (drop (flushIndex s2) (queue s2))"
      and eq: "s' = s2\<lparr>flushIndex := flushIndex s', seen := seen s', executed := executed s'\<rparr>"
      by blast
    have "s' = s\<lparr>flushIndex := flushIndex s', seen := seen s', executed := executed s'\<rparr>"
      by (subst eq) (simp add: s2_def)
    with r e step show ?thesis by (simp add: dr e2 q2 f2 l2)
  qed
qed


lemma findInsertionIndex_loop_step:
  "start < end' \<Longrightarrow> findInsertionIndex_loop s i start end' =
        (let middle = (start + end') div 2 in
         if id_less (getId s (queue s ! middle)) i
         then findInsertionIndex_loop s i (middle + 1) end'
         else findInsertionIndex_loop s i start middle)"
  by (subst findInsertionIndex_loop.simps) simp

lemma findInsertionIndex_loop_done:
  "\<not> start < end' \<Longrightarrow> findInsertionIndex_loop s i start end' = start"
  by (subst findInsertionIndex_loop.simps) simp

lemmas sched_eval = sched_init_def id_jobs_def queueJob_def queueFlush_def splice_in_def
  findInsertionIndex_def findInsertionIndex_loop_step findInsertionIndex_loop_done getId_def
  Let_def

text \<open>
  Claim C6, for a flush during which no job calls the scheduler.  A flush of the
  main queue (no pre- or post-flush callback pending) started with the jobs in any
  order, each queued once and none of them calling the scheduler when it runs,
  returns, and has called the jobs of the queue that are not deactivated, each once,
  in ascending order of their identity numbers, the jobs without one after all the
  others.
\<close>

theorem flushJobs_ascending_order:
  "pendingPreFlushCbs s = [] \<Longrightarrow> pendingPostFlushCbs s = [] \<Longrightarrow>
   distinct (queue s) \<Longrightarrow> \<forall>j \<in> set (queue s). quiet_job s j \<Longrightarrow>
   length (queue s) + 2 \<le> k \<Longrightarrow>
   \<exists>s'. flushJobs_task k dev s = Some s' \<and>
        executed s' = executed s @ filter (live_job s) (sort_jobs s (queue s)) \<and>
        mset (sort_jobs s (queue s)) = mset (queue s) \<and>
        sorted_wrt (\<lambda>a b. id_le (getId s a) (getId s b)) (sort_jobs s (queue s)) \<and>
        sorted_wrt (\<lambda>a b. id_le (getId s a) (getId s b))
          (filter (live_job s) (sort_jobs s (queue s))) \<and>
        queue s' = [] \<and> \<not> isFlushing s' \<and> \<not> isFlushPending s'"
proof -
  assume pre: "pendingPreFlushCbs s = []" and post: "pendingPostFlushCbs s = []"
    and di: "distinct (queue s)" and qu: "\<forall>j \<in> set (queue s). quiet_job s j"
    and k: "length (queue s) + 2 \<le> k"
  from k obtain k2 where k2: "k = Suc (Suc k2)" and k2l: "length (queue s) \<le> k2"
    by (cases k; cases "k - 1") auto
  define s0 where "s0 = s\<lparr>seen := (\<lambda>_. None), isFlushPending := False, isFlushing := True\<rparr>"
  define s1 where "s1 = s0\<lparr>queue := sort_jobs s0 (queue s0), flushIndex := 0\<rparr>"
  have "sort_jobs s0 (queue s0) = sort_jobs s (queue s0)"
    by (rule sort_jobs_cong) (simp add: s0_def)
  then have so: "sort_jobs s0 (queue s0) = sort_jobs s (queue s)"
    by (simp add: s0_def)
  have ms: "mset (sort_jobs s (queue s)) = mset (queue s)" by (rule mset_sort_jobs)
  have st: "set (sort_jobs s (queue s)) = set (queue s)" using ms by (rule mset_eq_setD)
  have ds: "distinct (sort_jobs s (queue s))" using mset_eq_imp_distinct_iff[OF ms] di by simp
  have q1: "queue s1 = sort_jobs s (queue s)" by (simp add: s1_def so)
  have le: "length (queue s1) = length (queue s)" using mset_eq_length[OF ms] q1 by simp
  have f1: "flushIndex s1 = 0" "jobs s1 = jobs s" "seen s1 = (\<lambda>_. None)"
    "executed s1 = executed s"
    by (simp_all add: s1_def s0_def)
  have a1: "\<forall>j \<in> set (drop (flushIndex s1) (queue s1)). quiet_job s1 j \<and> seen s1 j = None"
    using qu st by (simp add: f1 q1 quiet_job_def)
  have a2: "distinct (drop (flushIndex s1) (queue s1))" using ds by (simp add: f1 q1)
  have a3: "length (queue s1) - flushIndex s1 < Suc k2" using le k2l by (simp add: f1)
  from flush_loop_quiet[OF a1 a2 a3, of dev] obtain s2 where
    r: "flush_loop (Suc k2) dev s1 = Some s2"
    and e: "executed s2 = executed s1 @ filter (live_job s1) (drop (flushIndex s1) (queue s1))"
    and eq: "s2 = s1\<lparr>flushIndex := flushIndex s2, seen := seen s2, executed := executed s2\<rparr>"
    by blast
  have l1: "live_job s1 = live_job s" by (simp add: fun_eq_iff live_job_def f1)
  have f2: "pendingPostFlushCbs s2 = []" "pendingPreFlushCbs s2 = []"
    by (subst eq, simp add: s1_def s0_def post pre)+
  have e2: "executed s2 = executed s @ filter (live_job s) (sort_jobs s (queue s))"
    using e by (simp add: f1 q1 l1)
  have p0: "flushPreFlushCbs (Suc k2) dev None s0 = Some s0"
    by (simp add: s0_def pre)
  have x0: "(s\<lparr>seen := (\<lambda>_. None)\<rparr>)\<lparr>isFlushPending := False, isFlushing := True\<rparr> = s0"
    by (simp add: s0_def)
  have x1: "s0\<lparr>queue := sort_jobs s0 (queue s0), flushIndex := 0\<rparr> = s1"
    by (simp add: s1_def)
  define s3 where "s3 = s2\<lparr>flushIndex := 0, queue := []\<rparr>"
  have p3: "flushPostFlushCbs (Suc k2) dev s3 = Some s3"
    by (simp add: flushPostFlushCbs_def s3_def f2)
  have "flushJobs (Suc (Suc k2)) dev (s\<lparr>seen := (\<lambda>_. None)\<rparr>) = Some (s3\<lparr>isFlushing := False\<rparr>)"
    by (simp only: flushJobs.simps x0 p0 option.case x1 r s3_def[symmetric] p3 Let_def)
       (simp add: s3_def f2)
  then have "flushJobs_task k dev s = Some (s3\<lparr>isFlushing := False\<rparr>)"
    by (simp only: flushJobs_task_def k2)
  moreover have "\<not> isFlushPending s2"
    by (subst eq) (simp add: s1_def s0_def)
  then have "\<not> isFlushPending s3" "queue s3 = []" "executed s3 = executed s2"
    by (simp_all add: s3_def)
  ultimately show ?thesis
    using e2 ms sorted_sort_jobs[of s "queue s"]
      sorted_wrt_filter[OF sorted_sort_jobs[of s "queue s"], of "live_job s"]
    by simp
qed

theorem flushJobs_ascending_order_witness:
  "queue (queueJob 2 (queueJob 0 (queueJob 1 (queueJob 3 (sched_init id_jobs))))) = [3, 1, 2, 0] \<and>
   map_option executed
     (flushJobs_task 6 True (queueJob 2 (queueJob 0 (queueJob 1 (queueJob 3 (sched_init id_jobs))))))
   = Some [1, 2, 3, 0]"
proof -
  define s where "s = queueJob 2 (queueJob 0 (queueJob 1 (queueJob 3 (sched_init id_jobs))))"
  have q: "queue s = [3, 1, 2, 0]" and j: "jobs s = id_jobs" and e: "executed s = []"
    and p: "pendingPreFlushCbs s = []" "pendingPostFlushCbs s = []"
    by (simp_all add: s_def sched_eval)
  have d: "distinct (queue s)" and u: "\<forall>j \<in> set (queue s). quiet_job s j"
    and k: "length (queue s) + 2 \<le> 6"
    by (simp_all add: q j quiet_job_def id_jobs_def)
  have so: "sort_jobs s (queue s) = [1, 2, 3, 0]"
    by (simp add: q sort_jobs_def getId_def j id_jobs_def)
  have li: "filter (live_job s) [1, 2, 3, 0] = [1, 2, 3, 0]"
    by (simp add: live_job_def j id_jobs_def)
  from flushJobs_ascending_order[OF p d u k, of True] q so e li
  show ?thesis unfolding s_def by auto
qed

text \<open>
  Outside a flush, \<open>queueJob\<close> keeps the queue free of duplicates.
\<close>

lemma queueJob_distinct:
  assumes "\<not> isFlushing s" "flushIndex s = 0" "distinct (queue s)"
  shows "distinct (queue (queueJob j s))"
proof -
  have "distinct (splice_in i j (queue s))" if "j \<notin> set (queue s)" for i
  proof -
    from assms(3) have "distinct (take i (queue s))" "distinct (drop i (queue s))"
      "set (take i (queue s)) \<inter> set (drop i (queue s)) = {}"
      using distinct_append[of "take i (queue s)" "drop i (queue s)"] by simp_all
    moreover have "j \<notin> set (take i (queue s))" "j \<notin> set (drop i (queue s))"
      using that by (auto dest: in_set_takeD in_set_dropD)
    ultimately show ?thesis by (auto simp: splice_in_def)
  qed
  with assms show ?thesis
    by (auto simp: queueJob_def queueFlush_def split: option.splits)
qed

lemmas flush_eval = flushJobs_task_def requeue_jobs_def Let_def call_job_def
  checkRecursiveUpdates_def sort_jobs_def getId_def flushPostFlushCbs_def
  queueJob_def queueFlush_def splice_in_def RECURSION_LIMIT_def
  findInsertionIndex_def findInsertionIndex_loop_step findInsertionIndex_loop_done

text \<open>
  Claim C6 fails when a job is queued during the flush.  Jobs 2 and 3 are queued;
  job 2 queues job 1 when it runs.  \<open>findInsertionIndex\<close> searches from
  \<open>flushIndex + 1\<close> on, so job 1 is put behind the running job 2, and the flush
  calls the jobs in the order 2, 1, 3.
\<close>

theorem flushJobs_queued_during_flush_counterexample:
  "queue (queueJob 3 (queueJob 2 (sched_init requeue_jobs))) = [2, 3] \<and>
   job_id (requeue_jobs 1) = Some 1 \<and> job_id (requeue_jobs 2) = Some 2 \<and>
   job_id (requeue_jobs 3) = Some 3 \<and>
   map_option executed
     (flushJobs_task 6 True (queueJob 3 (queueJob 2 (sched_init requeue_jobs)))) =
     Some [2, 1, 3] \<and>
   map_option executed
     (flushJobs_task 6 False (queueJob 3 (queueJob 2 (sched_init requeue_jobs)))) =
     Some [2, 1, 3]"
proof -
  have s: "queueJob 3 (queueJob 2 (sched_init requeue_jobs)) =
     \<lparr>jobs = requeue_jobs, queue = [2, 3], flushIndex = 0, isFlushing = False,
      isFlushPending = True,
      pendingPreFlushCbs = [], activePreFlushCbs = None, preFlushIndex = 0,
      pendingPostFlushCbs = [], activePostFlushCbs = None, postFlushIndex = 0,
      currentPreFlushParentJob = None, seen = (\<lambda>_. None), executed = []\<rparr>"
    by (simp add: sched_init_def requeue_jobs_def queueJob_def queueFlush_def splice_in_def
        findInsertionIndex_def findInsertionIndex_loop_step findInsertionIndex_loop_done
        getId_def Let_def)
  have six: "(6::nat) = Suc (Suc (Suc (Suc (Suc (Suc 0)))))" by simp
  have i: "job_id (requeue_jobs 1) = Some 1" "job_id (requeue_jobs 2) = Some 2"
    "job_id (requeue_jobs 3) = Some 3"
    by (simp_all add: requeue_jobs_def)
  have t: "map_option executed
     (flushJobs_task 6 True (queueJob 3 (queueJob 2 (sched_init requeue_jobs)))) =
     Some [2, 1, 3]"
    unfolding s six by (simp add: flush_eval)
  have f: "map_option executed
     (flushJobs_task 6 False (queueJob 3 (queueJob 2 (sched_init requeue_jobs)))) =
     Some [2, 1, 3]"
    unfolding s six by (simp add: flush_eval)
  have q: "queue (queueJob 3 (queueJob 2 (sched_init requeue_jobs))) = [2, 3]"
    unfolding s by simp
  from q i t f show ?thesis by (intro conjI)
qed

subsection \<open>The chain of running effects\<close>

lemma walkParents_True: "walkParents k efs p e = Some True \<Longrightarrow> on_chain efs p e"
proof (induction k efs p e rule: walkParents.induct)
  case (1 k efs e)
  then show ?case by simp
next
  case (2 k efs p e)
  show ?case
  proof (cases "p = e")
    case True
    then show ?thesis by (simp add: on_chain.here)
  next
    case False
    with 2 show ?thesis
      by (cases k) (auto intro: on_chain.up)
  qed
qed

lemma walkParents_False: "walkParents k efs p e = Some False \<Longrightarrow> \<not> on_chain efs p e"
proof (induction k efs p e rule: walkParents.induct)
  case (1 k efs e)
  show ?case by (auto elim: on_chain.cases)
next
  case (2 k efs p e)
  show ?case
  proof (cases "p = e")
    case True
    with 2(2) show ?thesis by simp
  next
    case False
    with 2 show ?thesis
      by (cases k) (auto elim: on_chain.cases)
  qed
qed

lemma on_chain_walk:
  "on_chain efs p e \<Longrightarrow> \<exists>k0. \<forall>k \<ge> k0. walkParents k efs p e = Some True"
proof (induction rule: on_chain.induct)
  case (here x)
  then show ?case by simp
next
  case (up p x)
  then obtain k0 where k0: "\<forall>k \<ge> k0. walkParents k efs (parent (efs p)) x = Some True" by blast
  have "\<forall>k \<ge> Suc k0. walkParents k efs (Some p) x = Some True"
  proof (intro allI impI)
    fix k assume "Suc k0 \<le> k"
    then obtain k' where "k = Suc k'" "k0 \<le> k'" by (cases k) auto
    with k0 show "walkParents k efs (Some p) x = Some True" by simp
  qed
  then show ?case by blast
qed

lemma on_chain_pres:
  "on_chain efs p x \<Longrightarrow>
   (\<And>y. on_chain efs p y \<Longrightarrow> parent (efs' y) = parent (efs y)) \<Longrightarrow> on_chain efs' p x"
proof (induction rule: on_chain.induct)
  case (here x)
  show ?case by (rule on_chain.here)
next
  case (up p x)
  have "on_chain efs' (parent (efs p)) x"
    by (rule up.IH) (auto intro: up.prems on_chain.up)
  moreover have "parent (efs' p) = parent (efs p)"
    by (rule up.prems) (rule on_chain.here)
  ultimately show ?case by (auto intro: on_chain.up)
qed

lemma same_ctl_fields:
  assumes "same_ctl s s'"
  shows "parent (effects s' x) = parent (effects s x)"
    and "active (effects s' x) = active (effects s x)"
    and "fn (effects s' x) = fn (effects s x)"
    and "scheduler (effects s' x) = scheduler (effects s x)"
    and "allowRecurse (effects s' x) = allowRecurse (effects s x)"
    and "onStop (effects s' x) = onStop (effects s x)"
proof -
  from assms have e: "(effects s' x)\<lparr>deps := []\<rparr> = (effects s x)\<lparr>deps := []\<rparr>"
    by (simp add: same_ctl_def)
  from arg_cong[OF e, of parent] show "parent (effects s' x) = parent (effects s x)" by simp
  from arg_cong[OF e, of active] show "active (effects s' x) = active (effects s x)" by simp
  from arg_cong[OF e, of fn] show "fn (effects s' x) = fn (effects s x)" by simp
  from arg_cong[OF e, of scheduler] show "scheduler (effects s' x) = scheduler (effects s x)" by simp
  from arg_cong[OF e, of allowRecurse] show "allowRecurse (effects s' x) = allowRecurse (effects s x)" by simp
  from arg_cong[OF e, of onStop] show "onStop (effects s' x) = onStop (effects s x)" by simp
qed

lemma same_ctl_frame: "same_ctl s s' \<Longrightarrow> frame s s'"
  using same_ctl_fields(1)[of s s'] by (simp add: same_ctl_def frame_def)

lemma same_ctl_refl: "same_ctl s s"
  by (simp add: same_ctl_def)

lemma same_ctl_trans: "same_ctl s s1 \<Longrightarrow> same_ctl s1 s2 \<Longrightarrow> same_ctl s s2"
  by (simp add: same_ctl_def)

lemma frame_refl: "frame s s"
  by (simp add: frame_def)

lemma frame_chain: "frame s s' \<Longrightarrow> on_chain (effects s) (activeEffect s) x \<Longrightarrow>
   on_chain (effects s') (activeEffect s') x"
  unfolding frame_def by (metis on_chain_pres)

lemma frame_trans: "frame s s1 \<Longrightarrow> frame s1 s2 \<Longrightarrow> frame s s2"
proof -
  assume a: "frame s s1" and b: "frame s1 s2"
  have "parent (effects s2 x) = parent (effects s x)"
    if c: "on_chain (effects s) (activeEffect s) x" for x
  proof -
    from frame_chain[OF a c] have "on_chain (effects s1) (activeEffect s1) x" .
    with b have "parent (effects s2 x) = parent (effects s1 x)" by (simp add: frame_def)
    with a c show ?thesis by (simp add: frame_def)
  qed
  with a b show ?thesis by (simp add: frame_def)
qed

lemma fold_upd_dep_ctl:
  "same_ctl s (fold (\<lambda>d. upd_dep d (f d)) ds s)"
proof (induction ds arbitrary: s)
  case Nil
  show ?case by (simp add: same_ctl_refl)
next
  case (Cons d ds)
  have "same_ctl s (upd_dep d (f d) s)" by (simp add: same_ctl_def upd_dep_def)
  from same_ctl_trans[OF this Cons.IH] show ?case by simp
qed

lemma initDepMarkers_ctl: "same_ctl s (initDepMarkers e s)"
  unfolding initDepMarkers_def by (rule fold_upd_dep_ctl)

lemma fold_upd_dep_effects:
  "effects (fold (\<lambda>d. upd_dep d (f d)) ds s) = effects s"
  by (induction ds arbitrary: s) (simp_all add: upd_dep_def)

lemma cleanupEffect_ctl: "same_ctl s (cleanupEffect e s)"
proof -
  have "same_ctl (fold (\<lambda>d. upd_dep d (\<lambda>dp. dp\<lparr>members := set_delete (members dp) e\<rparr>)) ds s)
          (upd_effect e (\<lambda>ef. ef\<lparr>deps := []\<rparr>)
             (fold (\<lambda>d. upd_dep d (\<lambda>dp. dp\<lparr>members := set_delete (members dp) e\<rparr>)) ds s))" for ds
    by (simp add: same_ctl_def upd_effect_def)
  from same_ctl_trans[OF fold_upd_dep_ctl this] show ?thesis
    by (simp add: cleanupEffect_def Let_def same_ctl_refl)
qed

lemma finalizeDepMarkers_ctl: "same_ctl s (finalizeDepMarkers e s)"
  by (simp add: finalizeDepMarkers_def Let_def same_ctl_def upd_effect_def split: prod.splits)

lemma trackEffects_ctl: "same_ctl s (trackEffects d e s)"
  by (simp add: trackEffects_def Let_def same_ctl_def upd_effect_def upd_dep_def split: prod.splits)

lemma track_ctl: "same_ctl s (track t k s)"
proof -
  have "same_ctl s (trackEffects d e s')" if "same_ctl s s'" for d e s'
    using that trackEffects_ctl[of s' d e] by (rule same_ctl_trans)
  then show ?thesis
    by (auto simp: track_def Let_def same_ctl_refl split: option.splits intro!: same_ctl_refl)
       (simp_all add: same_ctl_def)
qed

lemma trackRefValue_ctl: "same_ctl s (trackRefValue c s)"
proof -
  have "same_ctl s (trackEffects d e s')" if "same_ctl s s'" for d e s'
    using that trackEffects_ctl[of s' d e] by (rule same_ctl_trans)
  then show ?thesis
    by (auto simp: trackRefValue_def Let_def same_ctl_refl upd_computed_def split: option.splits)
       (simp_all add: same_ctl_def)
qed


subsection \<open>Relating the states before and after a call\<close>

text \<open>
  A relation between states that holds across every primitive step of the runtime,
  and across a run once it holds across the body of the run, holds across every call
  that returns.
\<close>

lemma eval_rel:
  assumes refl: "\<And>s. R s s"
    and trans: "\<And>s s1 s2. R s s1 \<Longrightarrow> R s1 s2 \<Longrightarrow> R s s2"
    and r_track: "\<And>s t ky. R s (track t ky s)"
    and r_pause: "\<And>s. R s (pauseTracking s)"
    and r_enable: "\<And>s. R s (enableTracking s)"
    and r_reset: "\<And>s. R s (resetTracking s)"
    and r_sched: "\<And>s e. R s (emit (SchedulerCalled e) s)"
    and r_onStop: "\<And>s e. R s (emit (OnStopCalled e) s)"
    and r_inactive: "\<And>s e s2. \<not> active (effects s e) \<Longrightarrow> R (emit (FnCalled e) s) s2 \<Longrightarrow> R s s2"
    and r_dirty: "\<And>s c b. R s (upd_computed c (\<lambda>cr. cr\<lparr>dirty := b\<rparr>) s)"
    and r_trackRef: "\<And>s c. R s (trackRefValue c s)"
    and r_cleanup: "\<And>s e. active (effects s e) \<Longrightarrow> R s (cleanupEffect e s)"
    and r_deactivate: "\<And>s e. R s (upd_effect e (\<lambda>ef. ef\<lparr>active := False\<rparr>) s)"
    and r_run: "\<And>s e s2 k. active (effects s e) \<Longrightarrow>
        walkParents k (effects s) (activeEffect s) e = Some False \<Longrightarrow>
        R (emit (FnCalled e) (run_enter e s)) s2 \<Longrightarrow> R s (run_finally e (shouldTrack s) s2)"
  shows "eval k c s = Some (out, s') \<Longrightarrow> R s s'"
proof (induction k c s arbitrary: out s' rule: eval.induct)
  case (1 k s)
  then show ?case by (simp add: refl)
next
  case (2 k a as s)
  define r where "r = (case a of
              Track t ky \<Rightarrow> Some (Normal, track t ky s)
            | Trigger t ty ky nv \<Rightarrow>
                (case trigger_effects s t ty ky nv of
                   None \<Rightarrow> Some (Thrown, s)
                 | Some effs \<Rightarrow> eval k (TriggerEffects effs) s)
            | RunEffect e \<Rightarrow> eval k (Run e) s
            | StopEffect e \<Rightarrow> eval k (Stop e) s
            | ReadComputed c \<Rightarrow> eval k (ComputedGet c) s
            | PauseTracking \<Rightarrow> Some (Normal, pauseTracking s)
            | EnableTracking \<Rightarrow> Some (Normal, enableTracking s)
            | ResetTracking \<Rightarrow> Some (Normal, resetTracking s)
            | Throw \<Rightarrow> Some (Thrown, s))"
  have ev: "eval k (Body (a # as)) s = (case r of Some (Normal, s1) \<Rightarrow> eval k (Body as) s1 | r' \<Rightarrow> r')"
    by (simp add: r_def)
  have stepR: "R s s1" if "r = Some (o1, s1)" for o1 s1
  proof (cases a)
    case (Track t ky)
    with that show ?thesis by (auto simp: r_def r_track)
  next
    case (Trigger t ty ky nv)
    show ?thesis
    proof (cases "trigger_effects s t ty ky nv")
      case None
      with that Trigger show ?thesis by (auto simp: r_def refl)
    next
      case (Some effs)
      with that Trigger have "eval k (TriggerEffects effs) s = Some (o1, s1)" by (simp add: r_def)
      then show ?thesis by (rule "2.IH"(1)[OF Trigger Some])
    qed
  next
    case (RunEffect e)
    with that have "eval k (Run e) s = Some (o1, s1)" by (simp add: r_def)
    then show ?thesis by (rule "2.IH"(2)[OF RunEffect])
  next
    case (StopEffect e)
    with that have "eval k (Stop e) s = Some (o1, s1)" by (simp add: r_def)
    then show ?thesis by (rule "2.IH"(3)[OF StopEffect])
  next
    case (ReadComputed c)
    with that have "eval k (ComputedGet c) s = Some (o1, s1)" by (simp add: r_def)
    then show ?thesis by (rule "2.IH"(4)[OF ReadComputed])
  next
    case PauseTracking
    with that show ?thesis by (auto simp: r_def r_pause)
  next
    case EnableTracking
    with that show ?thesis by (auto simp: r_def r_enable)
  next
    case ResetTracking
    with that show ?thesis by (auto simp: r_def r_reset)
  next
    case Throw
    with that show ?thesis by (auto simp: r_def refl)
  qed
  show ?case
  proof (cases r)
    case None
    with "2.prems" ev show ?thesis by simp
  next
    case (Some p)
    obtain o1 s1 where p: "p = (o1, s1)" by (cases p)
    show ?thesis
    proof (cases o1)
      case Normal
      with Some p "2.prems" ev have e2: "eval k (Body as) s1 = Some (out, s')" by simp
      have "R s1 s'"
        by (rule "2.IH"(5)[OF _ _ _ e2, of p o1]) (simp_all add: Some[unfolded r_def] p Normal)
      with stepR[of o1 s1] Some p show ?thesis by (auto intro: trans)
    next
      case Thrown
      with Some p "2.prems" ev have "s' = s1" by simp
      with stepR[of o1 s1] Some p show ?thesis by simp
    qed
  qed
next
  case (3 k s)
  then show ?case by (simp add: refl)
next
  case (4 k e es s)
  show ?case
  proof (cases "Some e \<noteq> activeEffect s \<or> allowRecurse (effects s e)")
    case False
    with "4.prems" have "eval k (TriggerEffects es) s = Some (out, s')" by simp
    then show ?thesis by (rule "4.IH"(4)[OF False])
  next
    case True
    define r where "r = (case scheduler (effects s e) of
                 Some sc \<Rightarrow> eval k (CallScheduler e sc) s
               | None \<Rightarrow> eval k (Run e) s)"
    have ev: "eval k (TriggerEffects (e # es)) s =
        (case r of Some (Normal, s1) \<Rightarrow> eval k (TriggerEffects es) s1 | r' \<Rightarrow> r')"
      using True by (simp add: r_def)
    have stepR: "R s s1" if "r = Some (o1, s1)" for o1 s1
    proof (cases "scheduler (effects s e)")
      case None
      with that have "eval k (Run e) s = Some (o1, s1)" by (simp add: r_def)
      then show ?thesis by (rule "4.IH"(1)[OF True None])
    next
      case (Some sc)
      with that have "eval k (CallScheduler e sc) s = Some (o1, s1)" by (simp add: r_def)
      then show ?thesis by (rule "4.IH"(2)[OF True Some])
    qed
    show ?thesis
    proof (cases r)
      case None
      with "4.prems" ev show ?thesis by simp
    next
      case (Some p)
      obtain o1 s1 where p: "p = (o1, s1)" by (cases p)
      show ?thesis
      proof (cases o1)
        case Normal
        with Some p "4.prems" ev have e2: "eval k (TriggerEffects es) s1 = Some (out, s')" by simp
        have "R s1 s'"
          by (rule "4.IH"(3)[OF True _ _ _ e2, of p o1]) (simp_all add: Some[unfolded r_def] p Normal)
        with stepR[of o1 s1] Some p show ?thesis by (auto intro: trans)
      next
        case Thrown
        with Some p "4.prems" ev have "s' = s1" by simp
        with stepR[of o1 s1] Some p show ?thesis by simp
      qed
    qed
  qed
next
  case (5 e sc s)
  then show ?case by simp
next
  case (6 k e acts s)
  from "6.prems" have "eval k (Body acts) (emit (SchedulerCalled e) s) = Some (out, s')" by simp
  from "6.IH"[OF this] r_sched[of s e] show ?case by (rule trans[rotated])
next
  case (7 k e c s)
  define s0 where "s0 = emit (SchedulerCalled e) s"
  show ?case
  proof (cases "dirty (computeds s0 c)")
    case True
    with "7.prems" have "s' = s0" by (simp add: s0_def Let_def)
    then show ?thesis by (simp add: s0_def r_sched)
  next
    case False
    define s1 where "s1 = upd_computed c (\<lambda>cr. cr\<lparr>dirty := True\<rparr>) s0"
    from False "7.prems" have e2: "eval k (TriggerEffects (refValue_effects c s1)) s1 = Some (out, s')"
      by (simp add: s0_def s1_def Let_def)
    have "R s1 s'" by (rule "7.IH"[OF s0_def False s1_def e2])
    moreover have "R s s0" by (simp add: s0_def r_sched)
    moreover have "R s0 s1" by (simp add: s1_def r_dirty)
    ultimately show ?thesis by (blast intro: trans)
  qed
next
  case (8 e acts s)
  then show ?case by simp
next
  case (9 k e acts s)
  from "9.prems" have "eval k (Body acts) (emit (OnStopCalled e) s) = Some (out, s')" by simp
  from "9.IH"[OF this] r_onStop[of s e] show ?case by (rule trans[rotated])
next
  case (10 e s)
  then show ?case by simp
next
  case (11 k e s)
  show ?case
  proof (cases "active (effects s e)")
    case False
    with "11.prems" have "eval k (Body (fn (effects s e))) (emit (FnCalled e) s) = Some (out, s')"
      by simp
    from "11.IH"(1)[OF False this] show ?thesis by (rule r_inactive[OF False])
  next
    case True
    note act = True
    show ?thesis
    proof (cases "walkParents k (effects s) (activeEffect s) e")
      case None
      with act "11.prems" show ?thesis by simp
    next
      case (Some b)
      show ?thesis
      proof (cases b)
        case True
        with act Some "11.prems" show ?thesis by (simp add: refl)
      next
        case False
        define s1 where "s1 = run_enter e s"
        from act Some False "11.prems" obtain s2 where
          e2: "eval k (Body (fn (effects s1 e))) (emit (FnCalled e) s1) = Some (out, s2)"
          and s': "s' = run_finally e (shouldTrack s) s2"
          by (auto simp: s1_def Let_def split: option.splits)
        have "R (emit (FnCalled e) s1) s2"
          using act Some False by (intro "11.IH"(2)[OF _ _ _ s1_def e2]) simp_all
        then show ?thesis
          unfolding s' s1_def using act Some False by (intro r_run) simp_all
      qed
    qed
  qed
next
  case (12 k e s)
  show ?case
  proof (cases "active (effects s e)")
    case False
    with "12.prems" show ?thesis by (simp add: refl)
  next
    case True
    define s1 where "s1 = cleanupEffect e s"
    have c: "R s s1" using True by (simp add: s1_def r_cleanup)
    show ?thesis
    proof (cases "onStop (effects s1 e)")
      case None
      with True "12.prems" have "s' = upd_effect e (\<lambda>ef. ef\<lparr>active := False\<rparr>) s1"
        by (simp add: s1_def Let_def)
      with c r_deactivate[of s1 e] show ?thesis by (auto intro: trans)
    next
      case (Some acts)
      with True "12.prems" obtain o2 s2 where
        e2: "eval k (CallOnStop e acts) s1 = Some (o2, s2)"
        and s': "s' = (if o2 = Normal then upd_effect e (\<lambda>ef. ef\<lparr>active := False\<rparr>) s2 else s2)"
        by (auto simp: s1_def Let_def split: option.splits outcome.splits)
      have "R s1 s2" by (rule "12.IH"[OF True s1_def Some e2])
      with c have "R s s2" by (rule trans)
      with r_deactivate[of s2 e] show ?thesis unfolding s' by (auto intro: trans)
    qed
  qed
next
  case (13 k c s)
  define s1 where "s1 = trackRefValue c s"
  have a: "R s s1" by (simp add: s1_def r_trackRef)
  show ?case
  proof (cases "dirty (computeds s1 c) \<or> \<not> cacheable (computeds s1 c)")
    case False
    with "13.prems" have "s' = s1" by (simp add: s1_def Let_def)
    with a show ?thesis by simp
  next
    case True
    with "13.prems" have e2: "eval k (Run (ceffect (computeds s1 c)))
        (upd_computed c (\<lambda>cr. cr\<lparr>dirty := False\<rparr>) s1) = Some (out, s')"
      by (simp add: s1_def Let_def)
    have "R (upd_computed c (\<lambda>cr. cr\<lparr>dirty := False\<rparr>) s1) s'"
      by (rule "13.IH"[OF s1_def True e2])
    with r_dirty[of s1 c False] have "R s1 s'" by (rule trans)
    with a show ?thesis by (rule trans)
  qed
qed

subsection \<open>What a run restores\<close>

lemma emit_ctl:
  "activeEffect (emit ev s) = activeEffect s" "effectTrackDepth (emit ev s) = effectTrackDepth s"
  "effects (emit ev s) = effects s" "shouldTrack (emit ev s) = shouldTrack s"
  "depStore (emit ev s) = depStore s" "trackOpBit (emit ev s) = trackOpBit s"
  "trace (emit ev s) = trace s @ [ev]" "computeds (emit ev s) = computeds s"
  "nextDep (emit ev s) = nextDep s" "targetMap (emit ev s) = targetMap s"
  by (simp_all add: emit_def)

lemma emit_frame: "frame s (emit ev s)"
  by (simp add: frame_def emit_ctl)

lemma run_enter_ctl:
  "activeEffect (run_enter e s) = Some e"
  "effectTrackDepth (run_enter e s) = effectTrackDepth s + 1"
  "trackOpBit (run_enter e s) = shl1 (effectTrackDepth s + 1)"
  "trace (run_enter e s) = trace s"
  "parent (effects (run_enter e s) x) = (if x = e then activeEffect s else parent (effects s x))"
  "active (effects (run_enter e s) x) = active (effects s x)"
  "fn (effects (run_enter e s) x) = fn (effects s x)"
  "scheduler (effects (run_enter e s) x) = scheduler (effects s x)"
  "allowRecurse (effects (run_enter e s) x) = allowRecurse (effects s x)"
  "onStop (effects (run_enter e s) x) = onStop (effects s x)"
proof -
  define s2 where "s2 = (upd_effect e (\<lambda>ef. ef\<lparr>parent := activeEffect s\<rparr>) s)
      \<lparr>activeEffect := Some e, shouldTrack := True,
        effectTrackDepth := effectTrackDepth s + 1,
        trackOpBit := shl1 (effectTrackDepth s + 1)\<rparr>"
  have c: "same_ctl s2 (run_enter e s)"
    using initDepMarkers_ctl[of s2 e] cleanupEffect_ctl[of s2 e]
    by (simp add: run_enter_def Let_def s2_def[symmetric])
  note f = same_ctl_fields[OF c]
  have b: "activeEffect s2 = Some e" "effectTrackDepth s2 = effectTrackDepth s + 1"
    "trackOpBit s2 = shl1 (effectTrackDepth s + 1)" "trace s2 = trace s"
    "effects s2 x = (if x = e then (effects s e)\<lparr>parent := activeEffect s\<rparr> else effects s x)"
    by (simp_all add: s2_def upd_effect_def)
  from c b show "activeEffect (run_enter e s) = Some e"
    "effectTrackDepth (run_enter e s) = effectTrackDepth s + 1"
    "trackOpBit (run_enter e s) = shl1 (effectTrackDepth s + 1)"
    "trace (run_enter e s) = trace s"
    by (simp_all add: same_ctl_def)
  show "parent (effects (run_enter e s) x) = (if x = e then activeEffect s else parent (effects s x))"
    "active (effects (run_enter e s) x) = active (effects s x)"
    "fn (effects (run_enter e s) x) = fn (effects s x)"
    "scheduler (effects (run_enter e s) x) = scheduler (effects s x)"
    "allowRecurse (effects (run_enter e s) x) = allowRecurse (effects s x)"
    "onStop (effects (run_enter e s) x) = onStop (effects s x)"
    by (simp_all add: f b)
qed

lemmas run_enter_parent = run_enter_ctl(5)

lemma run_finally_ctl:
  "activeEffect (run_finally e l s) = parent (effects s e)"
  "effectTrackDepth (run_finally e l s) = effectTrackDepth s - 1"
  "trackOpBit (run_finally e l s) = shl1 (effectTrackDepth s - 1)"
  "shouldTrack (run_finally e l s) = l"
  "trace (run_finally e l s) = trace s"
  "parent (effects (run_finally e l s) x) = (if x = e then None else parent (effects s x))"
  "active (effects (run_finally e l s) x) = active (effects s x)"
  "fn (effects (run_finally e l s) x) = fn (effects s x)"
  "scheduler (effects (run_finally e l s) x) = scheduler (effects s x)"
  "allowRecurse (effects (run_finally e l s) x) = allowRecurse (effects s x)"
  "onStop (effects (run_finally e l s) x) = onStop (effects s x)"
proof -
  define s1 where "s1 = (if effectTrackDepth s \<le> maxMarkerBits then finalizeDepMarkers e s else s)"
  have c: "same_ctl s s1"
    using finalizeDepMarkers_ctl[of s e] by (simp add: s1_def same_ctl_refl)
  note f = same_ctl_fields[OF c]
  have r: "run_finally e l s =
     upd_effect e (\<lambda>ef. ef\<lparr>parent := None\<rparr>)
       (s1\<lparr>effectTrackDepth := effectTrackDepth s1 - 1,
            trackOpBit := shl1 (effectTrackDepth s1 - 1),
            activeEffect := parent (effects s1 e), shouldTrack := l\<rparr>)"
    by (simp add: run_finally_def Let_def s1_def)
  from c have d: "effectTrackDepth s1 = effectTrackDepth s" "trace s1 = trace s"
    by (simp_all add: same_ctl_def)
  show "activeEffect (run_finally e l s) = parent (effects s e)"
    "effectTrackDepth (run_finally e l s) = effectTrackDepth s - 1"
    "trackOpBit (run_finally e l s) = shl1 (effectTrackDepth s - 1)"
    "shouldTrack (run_finally e l s) = l"
    "trace (run_finally e l s) = trace s"
    "parent (effects (run_finally e l s) x) = (if x = e then None else parent (effects s x))"
    "active (effects (run_finally e l s) x) = active (effects s x)"
    "fn (effects (run_finally e l s) x) = fn (effects s x)"
    "scheduler (effects (run_finally e l s) x) = scheduler (effects s x)"
    "allowRecurse (effects (run_finally e l s) x) = allowRecurse (effects s x)"
    "onStop (effects (run_finally e l s) x) = onStop (effects s x)"
    by (simp_all add: r upd_effect_def f d)
qed

lemmas run_finally_parent = run_finally_ctl(6)

lemma run_enter_chain:
  assumes "\<not> on_chain (effects s) (activeEffect s) e"
    and "on_chain (effects s) (activeEffect s) x"
  shows "on_chain (effects (run_enter e s)) (activeEffect (run_enter e s)) x"
proof -
  have "on_chain (effects (run_enter e s)) (activeEffect s) x"
  proof (rule on_chain_pres[OF assms(2)])
    fix y assume "on_chain (effects s) (activeEffect s) y"
    with assms(1) have "y \<noteq> e" by auto
    then show "parent (effects (run_enter e s) y) = parent (effects s y)"
      by (simp add: run_enter_parent)
  qed
  then have "on_chain (effects (run_enter e s)) (parent (effects (run_enter e s) e)) x"
    by (simp add: run_enter_parent)
  then show ?thesis by (simp add: run_enter_ctl on_chain.up)
qed

lemma run_frame:
  assumes nc: "\<not> on_chain (effects s) (activeEffect s) e"
    and fr: "frame (run_enter e s) s2"
  shows "frame s (run_finally e l s2)"
proof -
  from fr have a2: "activeEffect s2 = Some e" and d2: "effectTrackDepth s2 = effectTrackDepth s + 1"
    and p2: "\<And>x. on_chain (effects (run_enter e s)) (Some e) x \<Longrightarrow>
          parent (effects s2 x) = parent (effects (run_enter e s) x)"
    by (simp_all add: frame_def run_enter_ctl)
  have pe: "parent (effects s2 e) = activeEffect s"
    using p2[OF on_chain.here] by (simp add: run_enter_parent)
  have px: "parent (effects (run_finally e l s2) x) = parent (effects s x)"
    if c: "on_chain (effects s) (activeEffect s) x" for x
  proof -
    from c nc have ne: "x \<noteq> e" by auto
    from run_enter_chain[OF nc c] have "on_chain (effects (run_enter e s)) (Some e) x"
      by (simp add: run_enter_ctl)
    from p2[OF this] ne show ?thesis by (simp add: run_finally_parent run_enter_parent)
  qed
  show ?thesis
    unfolding frame_def using px by (simp add: run_finally_ctl(1,2) pe d2)
qed

text \<open>
  Every call that returns, normally or by an exception, leaves the active effect,
  the depth and the \<open>parent\<close> fields of the running effects as they were.
\<close>

lemma frame_prims:
  "frame s (track t ky s)" "frame s (pauseTracking s)" "frame s (enableTracking s)"
  "frame s (resetTracking s)" "frame s (upd_computed c (\<lambda>cr. cr\<lparr>dirty := b\<rparr>) s)"
  "frame s (trackRefValue c s)" "frame s (cleanupEffect e s)"
  "frame s (upd_effect e (\<lambda>ef. ef\<lparr>active := False\<rparr>) s)"
proof -
  show "frame s (track t ky s)" by (rule same_ctl_frame[OF track_ctl])
  show "frame s (trackRefValue c s)" by (rule same_ctl_frame[OF trackRefValue_ctl])
  show "frame s (cleanupEffect e s)" by (rule same_ctl_frame[OF cleanupEffect_ctl])
  show "frame s (pauseTracking s)" "frame s (enableTracking s)" "frame s (resetTracking s)"
    by (simp_all add: frame_def pauseTracking_def enableTracking_def resetTracking_def)
  show "frame s (upd_computed c (\<lambda>cr. cr\<lparr>dirty := b\<rparr>) s)"
    by (simp add: frame_def upd_computed_def)
  show "frame s (upd_effect e (\<lambda>ef. ef\<lparr>active := False\<rparr>) s)"
    by (simp add: frame_def upd_effect_def)
qed

lemma frame_inactive: "frame (emit (FnCalled e) s) s2 \<Longrightarrow> frame s s2"
  by (rule frame_trans[OF emit_frame])

lemma frame_run:
  assumes "walkParents k (effects s) (activeEffect s) e = Some False"
    and "frame (emit (FnCalled e) (run_enter e s)) s2"
  shows "frame s (run_finally e (shouldTrack s) s2)"
proof -
  have "frame (run_enter e s) s2"
    by (rule frame_trans[OF emit_frame assms(2)])
  with walkParents_False[OF assms(1)] show ?thesis by (rule run_frame)
qed



lemma run_finally_store:
  "depStore (run_finally e l s) =
     depStore (if effectTrackDepth s \<le> maxMarkerBits then finalizeDepMarkers e s else s)"
  "deps (effects (run_finally e l s) x) =
     deps (effects (if effectTrackDepth s \<le> maxMarkerBits then finalizeDepMarkers e s else s) x)"
  by (simp_all add: run_finally_def Let_def upd_effect_def)

subsection \<open>Re-entrant runs\<close>

lemma calls_emit:
  "calls e (emit ev s) = (if ev = FnCalled e then calls e s + 1 else calls e s)"
  by (simp add: calls_def emit_def)

lemma no_rerun_refl: "no_rerun e s s"
  by (simp add: no_rerun_def frame_refl)

lemma no_rerun_trans: "no_rerun e s s1 \<Longrightarrow> no_rerun e s1 s2 \<Longrightarrow> no_rerun e s s2"
proof -
  assume a: "no_rerun e s s1" and b: "no_rerun e s1 s2"
  from a b have f: "frame s s2" by (auto simp: no_rerun_def intro: frame_trans)
  from a b have m: "\<forall>x. active (effects s2 x) \<longrightarrow> active (effects s x)"
    by (simp add: no_rerun_def)
  have "calls e s2 = calls e s"
    if c: "on_chain (effects s) (activeEffect s) e" and d: "active (effects s2 e)"
  proof -
    from a have fa: "frame s s1" by (simp add: no_rerun_def)
    from frame_chain[OF fa c] have c1: "on_chain (effects s1) (activeEffect s1) e" .
    from b d have d1: "active (effects s1 e)" by (simp add: no_rerun_def)
    from a c d1 have "calls e s1 = calls e s" by (simp add: no_rerun_def)
    moreover from b c1 d have "calls e s2 = calls e s1" by (simp add: no_rerun_def)
    ultimately show ?thesis by simp
  qed
  with f m show ?thesis by (simp add: no_rerun_def)
qed

lemma same_ctl_no_rerun: "same_ctl s s' \<Longrightarrow> no_rerun e s s'"
  using same_ctl_fields(2)[of s s'] same_ctl_frame[of s s']
  by (simp add: no_rerun_def calls_def same_ctl_def)

lemma no_rerun_prims:
  "no_rerun e s (track t ky s)" "no_rerun e s (pauseTracking s)" "no_rerun e s (enableTracking s)"
  "no_rerun e s (resetTracking s)" "no_rerun e s (emit (SchedulerCalled x) s)"
  "no_rerun e s (emit (OnStopCalled x) s)"
  "no_rerun e s (upd_computed c (\<lambda>cr. cr\<lparr>dirty := b\<rparr>) s)"
  "no_rerun e s (trackRefValue c s)" "no_rerun e s (cleanupEffect x s)"
  "no_rerun e s (upd_effect x (\<lambda>ef. ef\<lparr>active := False\<rparr>) s)"
proof -
  show "no_rerun e s (track t ky s)" by (rule same_ctl_no_rerun[OF track_ctl])
  show "no_rerun e s (trackRefValue c s)" by (rule same_ctl_no_rerun[OF trackRefValue_ctl])
  show "no_rerun e s (cleanupEffect x s)" by (rule same_ctl_no_rerun[OF cleanupEffect_ctl])
  have "same_ctl s (pauseTracking s)" "same_ctl s (enableTracking s)" "same_ctl s (resetTracking s)"
    "same_ctl s (upd_computed c (\<lambda>cr. cr\<lparr>dirty := b\<rparr>) s)"
    by (simp_all add: same_ctl_def pauseTracking_def enableTracking_def resetTracking_def
        upd_computed_def)
  then show "no_rerun e s (pauseTracking s)" "no_rerun e s (enableTracking s)"
    "no_rerun e s (resetTracking s)" "no_rerun e s (upd_computed c (\<lambda>cr. cr\<lparr>dirty := b\<rparr>) s)"
    by (simp_all add: same_ctl_no_rerun)
  show "no_rerun e s (emit (SchedulerCalled x) s)" "no_rerun e s (emit (OnStopCalled x) s)"
    by (simp_all add: no_rerun_def emit_frame calls_emit emit_ctl)
  have "frame s (upd_effect x (\<lambda>ef. ef\<lparr>active := False\<rparr>) s)" by (rule frame_prims)
  then show "no_rerun e s (upd_effect x (\<lambda>ef. ef\<lparr>active := False\<rparr>) s)"
    by (simp add: no_rerun_def calls_def) (simp add: upd_effect_def)
qed

lemma no_rerun_inactive:
  assumes na: "\<not> active (effects s x)" and r: "no_rerun e (emit (FnCalled x) s) s2"
  shows "no_rerun e s s2"
proof -
  from r have f: "frame s s2" by (auto simp: no_rerun_def intro: frame_inactive)
  from r have m: "\<forall>y. active (effects s2 y) \<longrightarrow> active (effects s y)"
    by (simp add: no_rerun_def emit_ctl)
  have "calls e s2 = calls e s"
    if c: "on_chain (effects s) (activeEffect s) e" and d: "active (effects s2 e)"
  proof -
    from m d have "active (effects s e)" by simp
    with na have "x \<noteq> e" by auto
    then have "calls e (emit (FnCalled x) s) = calls e s" by (simp add: calls_emit)
    moreover from r c d have "calls e s2 = calls e (emit (FnCalled x) s)"
      by (simp add: no_rerun_def emit_ctl)
    ultimately show ?thesis by simp
  qed
  with f m show ?thesis by (simp add: no_rerun_def)
qed

lemma no_rerun_run:
  assumes w: "walkParents k (effects s) (activeEffect s) x = Some False"
    and r: "no_rerun e (emit (FnCalled x) (run_enter x s)) s2"
  shows "no_rerun e s (run_finally x (shouldTrack s) s2)"
proof -
  from r have f: "frame s (run_finally x (shouldTrack s) s2)"
    by (auto simp: no_rerun_def intro: frame_run[OF w])
  from r have m: "\<forall>y. active (effects (run_finally x (shouldTrack s) s2) y) \<longrightarrow> active (effects s y)"
    by (simp add: no_rerun_def emit_ctl run_finally_ctl run_enter_ctl)
  have "calls e (run_finally x (shouldTrack s) s2) = calls e s"
    if c: "on_chain (effects s) (activeEffect s) e"
      and d: "active (effects (run_finally x (shouldTrack s) s2) e)"
  proof -
    from walkParents_False[OF w] have nc: "\<not> on_chain (effects s) (activeEffect s) x" .
    with c have "x \<noteq> e" by auto
    then have "calls e (emit (FnCalled x) (run_enter x s)) = calls e s"
      by (simp add: calls_emit) (simp add: calls_def run_enter_ctl)
    moreover from run_enter_chain[OF nc c] r d
    have "calls e s2 = calls e (emit (FnCalled x) (run_enter x s))"
      by (simp add: no_rerun_def emit_ctl run_finally_ctl)
    ultimately show ?thesis by (simp add: calls_def run_finally_ctl)
  qed
  with f m show ?thesis by (simp add: no_rerun_def)
qed

lemma eval_no_rerun:
  assumes "eval k c s = Some (out, s')"
  shows "no_rerun e s s'"
  by (rule eval_rel[where R = "no_rerun e", OF no_rerun_refl no_rerun_trans no_rerun_prims(1-6)
        no_rerun_inactive no_rerun_prims(7-10) no_rerun_run assms])

lemma run_on_chain:
  assumes "active (effects s e)" and "on_chain (effects s) (activeEffect s) e"
  shows "\<exists>k0. \<forall>k \<ge> k0. eval k (Run e) s = Some (Normal, s)"
proof -
  from on_chain_walk[OF assms(2)] obtain k0 where
    k0: "\<forall>k \<ge> k0. walkParents k (effects s) (activeEffect s) e = Some True" by blast
  have "\<forall>k \<ge> Suc k0. eval k (Run e) s = Some (Normal, s)"
  proof (intro allI impI)
    fix k assume "Suc k0 \<le> k"
    then obtain k' where "k = Suc k'" "k0 \<le> k'" by (cases k) auto
    with k0 assms(1) show "eval k (Run e) s = Some (Normal, s)" by simp
  qed
  then show ?thesis by blast
qed

lemma run_once:
  assumes ev: "eval k (Run e) s = Some (out, s')" and act: "active (effects s' e)"
    and nc: "\<not> on_chain (effects s) (activeEffect s) e"
  shows "calls e s' = calls e s + 1"
proof -
  from eval_no_rerun[OF ev, of e] act have a0: "active (effects s e)" by (simp add: no_rerun_def)
  from ev obtain k' where k: "k = Suc k'" by (cases k) auto
  have w: "walkParents k' (effects s) (activeEffect s) e = Some False"
  proof (cases "walkParents k' (effects s) (activeEffect s) e")
    case None
    with ev a0 k show ?thesis by simp
  next
    case (Some b)
    with walkParents_True[of k' "effects s" "activeEffect s" e] nc show ?thesis by (cases b) auto
  qed
  from ev a0 k w obtain s2 where
    e2: "eval k' (Body (fn (effects (run_enter e s) e))) (emit (FnCalled e) (run_enter e s)) =
              Some (out, s2)"
    and s': "s' = run_finally e (shouldTrack s) s2"
    by (cases "eval k' (Body (fn (effects (run_enter e s) e))) (emit (FnCalled e) (run_enter e s))")
       (auto simp: Let_def)
  have "on_chain (effects (emit (FnCalled e) (run_enter e s)))
          (activeEffect (emit (FnCalled e) (run_enter e s))) e"
    by (simp add: emit_ctl run_enter_ctl on_chain.here)
  moreover from act have "active (effects s2 e)" by (simp add: s' run_finally_ctl)
  ultimately have "calls e s2 = calls e (emit (FnCalled e) (run_enter e s))"
    using eval_no_rerun[OF e2, of e] by (simp add: no_rerun_def)
  then show ?thesis
    by (simp add: calls_emit) (simp add: calls_def s' run_finally_ctl run_enter_ctl)
qed

text \<open>
  Claim C3 fails for a stopped effect.  The first effect stops itself and runs the
  second, which calls the runner of the first: the first is then on the chain of the
  running effects, and its function is called again.
\<close>

theorem run_guard_stopped_counterexample:
  "on_chain (effects stopped_inner) (activeEffect stopped_inner) 0 \<and>
   trace stopped_inner = [FnCalled 0, FnCalled 1] \<and>
   eval 2 (Run 0) stopped_inner \<noteq> Some (Normal, stopped_inner) \<and>
   trace (snd (the (eval 2 (Run 0) stopped_inner))) = [FnCalled 0, FnCalled 1, FnCalled 0] \<and>
   trace (snd (the (eval 4 (Run 0) stopped_start))) = [FnCalled 0, FnCalled 1, FnCalled 0]"
proof -
  have "walkParents 1 (effects stopped_inner) (activeEffect stopped_inner) 0 = Some True"
    by (simp add: stopped_inner_def stopped_start_def rt_eval)
  then have c: "on_chain (effects stopped_inner) (activeEffect stopped_inner) 0"
    by (rule walkParents_True)
  have t: "trace stopped_inner = [FnCalled 0, FnCalled 1]"
    by (simp add: stopped_inner_def stopped_start_def rt_eval)
  have "\<exists>s'. eval 2 (Run 0) stopped_inner = Some (Normal, s') \<and>
          trace s' = [FnCalled 0, FnCalled 1, FnCalled 0]"
    by (simp add: stopped_inner_def stopped_start_def rt_eval numeral_2_eq_2)
  then obtain s' where e: "eval 2 (Run 0) stopped_inner = Some (Normal, s')"
    and t': "trace s' = [FnCalled 0, FnCalled 1, FnCalled 0]" by blast
  have "\<exists>s'. eval 4 (Run 0) stopped_start = Some (Normal, s') \<and>
          trace s' = [FnCalled 0, FnCalled 1, FnCalled 0]"
    by (simp add: stopped_start_def rt_eval eval_nat_numeral)
  then obtain s'' where e3: "eval 4 (Run 0) stopped_start = Some (Normal, s'')"
    and t3: "trace s'' = [FnCalled 0, FnCalled 1, FnCalled 0]" by blast
  from e t t' have "eval 2 (Run 0) stopped_inner \<noteq> Some (Normal, stopped_inner)" by auto
  with c t e t' e3 t3 show ?thesis by simp
qed

subsection \<open>Derived values\<close>

lemma walkParents_cong:
  "(\<And>x. parent (efs' x) = parent (efs x)) \<Longrightarrow> walkParents k efs' p e = walkParents k efs p e"
proof (induction k efs p e rule: walkParents.induct)
  case (1 k efs e)
  show ?case by simp
next
  case (2 k efs p e)
  then show ?case by (cases k) auto
qed

lemma same_ctl_walk:
  "same_ctl s s' \<Longrightarrow>
   walkParents k (effects s') (activeEffect s') e = walkParents k (effects s) (activeEffect s) e"
  using walkParents_cong[of "effects s'" "effects s" k "activeEffect s" e] same_ctl_fields(1)[of s s']
  by (simp add: same_ctl_def)

lemma fold_upd_dep_computeds:
  "computeds (fold (\<lambda>d. upd_dep d (f d)) ds s) = computeds s"
  by (induction ds arbitrary: s) (simp_all add: upd_dep_def)

lemma computeds_prims:
  "computeds (trackEffects d e s) = computeds s"
  "computeds (track t ky s) = computeds s"
  "computeds (run_enter e s) = computeds s"
  "computeds (run_finally e l s) = computeds s"
proof -
  show a: "computeds (trackEffects d e s) = computeds s" for d e s
    by (simp add: trackEffects_def Let_def upd_effect_def upd_dep_def split: prod.splits)
  show "computeds (track t ky s) = computeds s"
    by (simp add: track_def Let_def a split: option.splits)
  show "computeds (run_enter e s) = computeds s"
    by (simp add: run_enter_def Let_def initDepMarkers_def cleanupEffect_def
        fold_upd_dep_computeds upd_effect_def)
  show "computeds (run_finally e l s) = computeds s"
    by (simp add: run_finally_def Let_def finalizeDepMarkers_def upd_effect_def split: prod.splits)
qed

lemma trackRefValue_computeds:
  "dirty (computeds (trackRefValue c s) x) = dirty (computeds s x)"
  "cacheable (computeds (trackRefValue c s) x) = cacheable (computeds s x)"
  "ceffect (computeds (trackRefValue c s) x) = ceffect (computeds s x)"
  by (simp_all add: trackRefValue_def Let_def computeds_prims upd_computed_def split: option.splits)

lemma pure_body:
  "list_all is_read acts \<Longrightarrow>
   \<exists>s'. eval k (Body acts) s = Some (Normal, s') \<and> same_ctl s s' \<and> computeds s' = computeds s"
proof (induction acts arbitrary: s)
  case Nil
  show ?case by (simp add: same_ctl_refl)
next
  case (Cons a acts)
  then obtain t ky where a: "a = Track t ky" by (cases a) auto
  from Cons.prems have "list_all is_read acts" by simp
  from Cons.IH[OF this, of "track t ky s"] obtain s' where
    e: "eval k (Body acts) (track t ky s) = Some (Normal, s')"
    and c: "same_ctl (track t ky s) s'" and d: "computeds s' = computeds (track t ky s)"
    by blast
  from same_ctl_trans[OF track_ctl c] e d a show ?case
    by (simp add: computeds_prims)
qed

text \<open>Reads of a computed that is not dirty: the cached value is returned.\<close>

lemma clean_reads:
  "\<not> dirty (computeds s c) \<Longrightarrow> cacheable (computeds s c) \<Longrightarrow>
   \<exists>s'. eval k (Body (replicate m (ReadComputed c))) s = Some (Normal, s') \<and>
        trace s' = trace s \<and> \<not> dirty (computeds s' c) \<and> cacheable (computeds s' c)"
proof (induction m arbitrary: s)
  case 0
  then show ?case by simp
next
  case (Suc m)
  define s1 where "s1 = trackRefValue c s"
  from Suc.prems have d1: "\<not> dirty (computeds s1 c)" and c1: "cacheable (computeds s1 c)"
    by (simp_all add: s1_def trackRefValue_computeds)
  from Suc.IH[OF d1 c1] obtain s' where
    e: "eval k (Body (replicate m (ReadComputed c))) s1 = Some (Normal, s')"
    and r: "trace s' = trace s1" "\<not> dirty (computeds s' c)" "cacheable (computeds s' c)"
    by blast
  have "trace s1 = trace s" using trackRefValue_ctl[of s c] by (simp add: s1_def same_ctl_def)
  with e r d1 c1 show ?case by (simp add: s1_def[symmetric] Let_def)
qed

text \<open>The first read of a dirty computed whose getter only reads.\<close>

lemma dirty_read:
  assumes ca: "cacheable (computeds s c)"
    and act: "active (effects s (ceffect (computeds s c)))"
    and pure: "list_all is_read (fn (effects s (ceffect (computeds s c))))"
    and w: "walkParents k (effects s) (activeEffect s) (ceffect (computeds s c)) = Some False"
    and di: "dirty (computeds s c)"
  shows "\<exists>s'. eval (Suc k) (ComputedGet c) s = Some (Normal, s') \<and>
          trace s' = trace s @ [FnCalled (ceffect (computeds s c))] \<and>
          \<not> dirty (computeds s' c) \<and> cacheable (computeds s' c)"
proof -
  define ec where "ec = ceffect (computeds s c)"
  define s1 where "s1 = trackRefValue c s"
  define s2 where "s2 = upd_computed c (\<lambda>cr. cr\<lparr>dirty := False\<rparr>) s1"
  define s3 where "s3 = run_enter ec s2"
  have c1: "same_ctl s s1" by (simp add: s1_def trackRefValue_ctl)
  have c2: "same_ctl s s2"
    using c1 by (simp add: s2_def same_ctl_def upd_computed_def)
  note f2 = same_ctl_fields[OF c2]
  have e1: "ceffect (computeds s1 c) = ec" "dirty (computeds s1 c)"
    using di by (simp_all add: s1_def ec_def trackRefValue_computeds)
  have a2: "active (effects s2 ec)" using act by (simp add: f2 ec_def)
  have w2: "walkParents k (effects s2) (activeEffect s2) ec = Some False"
    using w by (simp add: same_ctl_walk[OF c2] ec_def)
  have p3: "list_all is_read (fn (effects s3 ec))"
    using pure by (simp add: s3_def run_enter_ctl f2 ec_def)
  from pure_body[OF p3, of k "emit (FnCalled ec) s3"] obtain s4 where
    e4: "eval k (Body (fn (effects s3 ec))) (emit (FnCalled ec) s3) = Some (Normal, s4)"
    and c4: "same_ctl (emit (FnCalled ec) s3) s4"
    and d4: "computeds s4 = computeds (emit (FnCalled ec) s3)"
    by blast
  define s5 where "s5 = run_finally ec (shouldTrack s2) s4"
  have r: "eval (Suc k) (Run ec) s2 = Some (Normal, s5)"
    using a2 w2 e4 by (simp add: s3_def[symmetric] s5_def Let_def)
  have ev: "eval (Suc k) (ComputedGet c) s = Some (Normal, s5)"
    using e1 r by (simp add: s1_def[symmetric] s2_def[symmetric] Let_def del: eval.simps(9))
  have t5: "trace s5 = trace s @ [FnCalled ec]"
    using c4 c2 by (simp add: s5_def run_finally_ctl same_ctl_def emit_ctl s3_def run_enter_ctl)
  have cs: "computeds s5 = computeds s2"
    by (simp add: s5_def computeds_prims d4 emit_ctl s3_def)
  have "\<not> dirty (computeds s5 c)" "cacheable (computeds s5 c)"
    using ca by (simp_all add: cs s2_def upd_computed_def s1_def trackRefValue_computeds)
  with ev t5 show ?thesis by (simp add: ec_def)
qed


lemma refValue_effects_dirty:
  "refValue_effects c (upd_computed c (\<lambda>cr. cr\<lparr>dirty := b\<rparr>) (emit ev s)) = refValue_effects c s"
  by (simp add: refValue_effects_def upd_computed_def emit_def split: option.splits)

text \<open>
  Consecutive reads, and the invalidation hook.  For a cacheable computed whose
  getter only reads reactive state and is not being run: any number of consecutive
  reads of \<open>value\<close> returns, calls the
  getter exactly once when the computed was dirty and not at all when it was not, and
  leaves it not dirty.  The scheduler installed by \<open>ComputedRefImpl\<close> does nothing
  when the computed is dirty already; otherwise it sets the dirty flag and goes on
  with \<open>triggerEffects\<close> on the dependents of the computed, without calling the
  getter itself.
\<close>

lemma computed_memoized:
  "cacheable (computeds s c) \<Longrightarrow>
   active (effects s (ceffect (computeds s c))) \<Longrightarrow>
   list_all is_read (fn (effects s (ceffect (computeds s c)))) \<Longrightarrow>
   walkParents k (effects s) (activeEffect s) (ceffect (computeds s c)) = Some False \<Longrightarrow>
   (\<exists>s'. eval (Suc k) (Body (replicate (Suc m) (ReadComputed c))) s = Some (Normal, s') \<and>
         calls (ceffect (computeds s c)) s' =
           calls (ceffect (computeds s c)) s + (if dirty (computeds s c) then 1 else 0) \<and>
         \<not> dirty (computeds s' c)) \<and>
   (\<forall>e j. eval (Suc j) (CallScheduler e (SchedComputed c)) s =
      (if dirty (computeds s c) then Some (Normal, emit (SchedulerCalled e) s)
       else eval j (TriggerEffects (refValue_effects c s))
              (upd_computed c (\<lambda>cr. cr\<lparr>dirty := True\<rparr>) (emit (SchedulerCalled e) s)))) \<and>
   (\<forall>e x. calls x (upd_computed c (\<lambda>cr. cr\<lparr>dirty := True\<rparr>) (emit (SchedulerCalled e) s)) =
      calls x s)"
proof -
  assume ca: "cacheable (computeds s c)"
    and act: "active (effects s (ceffect (computeds s c)))"
    and pure: "list_all is_read (fn (effects s (ceffect (computeds s c))))"
    and wk: "walkParents k (effects s) (activeEffect s) (ceffect (computeds s c)) = Some False"
  define ec where "ec = ceffect (computeds s c)"
  have reads: "\<exists>s'. eval (Suc k) (Body (replicate (Suc m) (ReadComputed c))) s = Some (Normal, s') \<and>
         calls ec s' = calls ec s + (if dirty (computeds s c) then 1 else 0) \<and>
         \<not> dirty (computeds s' c)"
  proof (cases "dirty (computeds s c)")
    case False
    from clean_reads[OF False ca, of "Suc k" "Suc m"] False show ?thesis
      by (auto simp: calls_def)
  next
    case True
    from dirty_read[OF ca act pure wk True] obtain s1 where
      e1: "eval (Suc k) (ComputedGet c) s = Some (Normal, s1)"
      and t1: "trace s1 = trace s @ [FnCalled ec]"
      and d1: "\<not> dirty (computeds s1 c)" and c1: "cacheable (computeds s1 c)"
      by (auto simp: ec_def)
    from clean_reads[OF d1 c1, of "Suc k" m] obtain s' where
      e2: "eval (Suc k) (Body (replicate m (ReadComputed c))) s1 = Some (Normal, s')"
      and t2: "trace s' = trace s1" and d2: "\<not> dirty (computeds s' c)"
      by blast
    have "eval (Suc k) (Body (replicate (Suc m) (ReadComputed c))) s = Some (Normal, s')"
      using e1 e2 by (simp del: eval.simps(13))
    with t1 t2 d2 True show ?thesis by (simp add: calls_def)
  qed
  have hook: "eval (Suc j) (CallScheduler e (SchedComputed c)) s =
      (if dirty (computeds s c) then Some (Normal, emit (SchedulerCalled e) s)
       else eval j (TriggerEffects (refValue_effects c s))
              (upd_computed c (\<lambda>cr. cr\<lparr>dirty := True\<rparr>) (emit (SchedulerCalled e) s)))" for e j
    by (simp add: Let_def refValue_effects_dirty emit_ctl)
  have cl: "calls x (upd_computed c (\<lambda>cr. cr\<lparr>dirty := True\<rparr>) (emit (SchedulerCalled e) s)) =
      calls x s" for e x
    by (simp add: calls_def upd_computed_def emit_def)
  from reads hook cl show ?thesis unfolding ec_def by blast
qed

lemma computed_memoized_example:
  "cacheable (computeds computed_start 0) \<and>
   active (effects computed_start (ceffect (computeds computed_start 0))) \<and>
   list_all is_read (fn (effects computed_start (ceffect (computeds computed_start 0)))) \<and>
   walkParents 0 (effects computed_start) (activeEffect computed_start)
     (ceffect (computeds computed_start 0)) = Some False \<and>
   dirty (computeds computed_start 0) \<and> calls 5 computed_start = 0 \<and>
   (\<exists>s'. eval 1 (Body (replicate 3 (ReadComputed 0))) computed_start = Some (Normal, s') \<and>
         calls 5 s' = 1 \<and> \<not> dirty (computeds s' 0))"
proof -
  have h: "cacheable (computeds computed_start 0)"
    "active (effects computed_start (ceffect (computeds computed_start 0)))"
    "list_all is_read (fn (effects computed_start (ceffect (computeds computed_start 0))))"
    "walkParents 0 (effects computed_start) (activeEffect computed_start)
       (ceffect (computeds computed_start 0)) = Some False"
    and d: "dirty (computeds computed_start 0)" "calls 5 computed_start = 0"
    "ceffect (computeds computed_start 0) = 5"
    by (simp_all add: computed_start_def rt_eval calls_def)
  from computed_memoized[OF h, of 2] d h show ?thesis
    by (simp add: numeral_3_eq_3)
qed

text \<open>
  The whole cycle on the example: three reads call the getter once; a write to the
  property it read calls the scheduler of the computed, not the getter; the effect
  that then reads the computed twice makes the getter run once more.
\<close>

lemma computed_cycle:
  "(case eval 1 (Body (replicate 3 (ReadComputed 0))) computed_start of
      Some (out1, s1) \<Rightarrow>
        trace s1 = [FnCalled 5] \<and>
        (case trigger 2 (Target PlainObject 0) SET (Some (KStr ''a'')) (Some 1) s1 of
           Some (out2, s2) \<Rightarrow>
             trace s2 = [FnCalled 5, SchedulerCalled 5] \<and> dirty (computeds s2 0) \<and>
             map_option (\<lambda>(out3, s3). trace s3) (eval 3 (Run 1) s2) =
               Some [FnCalled 5, SchedulerCalled 5, FnCalled 1, FnCalled 5]
         | None \<Rightarrow> False)
    | None \<Rightarrow> False)"
  by (simp add: computed_start_def rt_eval eval_nat_numeral)

text \<open>
  Claim C4 fails after an effect has stopped itself during its own run.  Effect 0
  reads the property \<open>a\<close> and stops itself: \<open>cleanupEffect\<close> empties its
  \<open>deps\<close> list, so the finalize pass at the end of the run does not visit the
  entry of \<open>a\<close>, which keeps its newly-tracked bit of depth 1.  The getter of the
  computed then reads \<open>a\<close> at depth 1: \<open>trackEffects\<close> takes the entry as
  tracked already and does not subscribe the getter effect.  A write to \<open>a\<close>
  notifies nobody, the computed stays not dirty, and the next read returns the
  cached value without calling the getter.  Without the run of effect 0 the same
  script calls the scheduler of the computed on the write and the getter a second
  time on the read.
\<close>

theorem computed_stale_after_self_stop:
  "map_option (\<lambda>(out, s). (out, trace s, dirty (computeds s 0), members (depStore s 0),
                             n (depStore s 0), deps (effects s 5)))
     (eval 2 (Body (RunEffect 0 # stale_script)) stale_start) =
     Some (Normal, [FnCalled 0, FnCalled 5], False, [], 2, []) \<and>
   map_option (\<lambda>(out, s). (out, trace s, dirty (computeds s 0), members (depStore s 0),
                             n (depStore s 0), deps (effects s 5)))
     (eval 2 (Body stale_script) stale_start) =
     Some (Normal, [FnCalled 5, SchedulerCalled 5, FnCalled 5], False, [5], 0, [0])"
  by (simp add: stale_start_def stale_script_def rt_eval numeral_2_eq_2)

subsection \<open>Stopping an effect\<close>

lemma fold_delete_store:
  "depStore (fold (\<lambda>d. upd_dep d (\<lambda>dp. dp\<lparr>members := set_delete (members dp) e\<rparr>)) ds s) d' =
     (if d' \<in> set ds then (depStore s d')\<lparr>members := set_delete (members (depStore s d')) e\<rparr>
      else depStore s d')"
proof (induction ds arbitrary: s)
  case Nil
  show ?case by simp
next
  case (Cons d ds)
  show ?case
    by (simp add: Cons.IH) (simp add: upd_dep_def set_delete_def)
qed

lemma cleanupEffect_store:
  "depStore (cleanupEffect e s) d =
     (if d \<in> set (deps (effects s e))
      then (depStore s d)\<lparr>members := set_delete (members (depStore s d)) e\<rparr>
      else depStore s d)"
  by (simp add: cleanupEffect_def Let_def upd_effect_def fold_delete_store)

lemma cleanupEffect_deps:
  "deps (effects (cleanupEffect e s) x) = (if x = e then [] else deps (effects s x))"
  by (auto simp: cleanupEffect_def Let_def upd_effect_def fold_upd_dep_effects)

lemma cleanupEffect_other:
  "nextDep (cleanupEffect e s) = nextDep s" "targetMap (cleanupEffect e s) = targetMap s"
  "computeds (cleanupEffect e s) = computeds s" "shouldTrack (cleanupEffect e s) = shouldTrack s"
proof -
  have "nextDep (fold (\<lambda>d. upd_dep d (f d)) ds s) = nextDep s \<and>
        targetMap (fold (\<lambda>d. upd_dep d (f d)) ds s) = targetMap s \<and>
        shouldTrack (fold (\<lambda>d. upd_dep d (f d)) ds s) = shouldTrack s" for f ds s
    by (induction ds arbitrary: s) (simp_all add: upd_dep_def)
  then show "nextDep (cleanupEffect e s) = nextDep s" "targetMap (cleanupEffect e s) = targetMap s"
    "computeds (cleanupEffect e s) = computeds s" "shouldTrack (cleanupEffect e s) = shouldTrack s"
    by (simp_all add: cleanupEffect_def Let_def upd_effect_def fold_upd_dep_computeds)
qed

text \<open>
  What \<open>stop\<close> does when the effect has no \<open>onStop\<close> callback, or when the callback
  returns: the effect is deleted from every entry of its \<open>deps\<close> list (so from every
  entry, when each entry that holds it is in that list), the list is emptied, and the
  effect is marked inactive.  A second \<open>stop\<close> changes nothing.
\<close>

lemma stop_no_callback:
  assumes "active (effects s e)" and "onStop (effects s e) = None"
  shows "eval k (Stop e) s =
           Some (Normal, upd_effect e (\<lambda>ef. ef\<lparr>active := False\<rparr>) (cleanupEffect e s))"
proof -
  have "onStop (effects (cleanupEffect e s) e) = None"
    using assms(2) same_ctl_fields(6)[OF cleanupEffect_ctl[of s e], of e] by simp
  with assms(1) show ?thesis by (simp add: Let_def)
qed

lemma stop_unsubscribes:
  assumes act: "active (effects s e)" and ns: "onStop (effects s e) = None"
    and bk: "\<forall>d. e \<in> set (members (depStore s d)) \<longrightarrow> d \<in> set (deps (effects s e))"
    and ev: "eval k (Stop e) s = Some (out, s')"
  shows "out = Normal \<and> \<not> active (effects s' e) \<and> deps (effects s' e) = [] \<and>
         (\<forall>d. e \<notin> set (members (depStore s' d)))"
proof -
  from ev stop_no_callback[OF act ns, of k]
  have s': "s' = upd_effect e (\<lambda>ef. ef\<lparr>active := False\<rparr>) (cleanupEffect e s)" and o: "out = Normal"
    by simp_all
  have "e \<notin> set (members (depStore s' d))" for d
    using bk by (auto simp: s' upd_effect_def cleanupEffect_store set_delete_def)
  moreover have "deps (effects s' e) = []" "\<not> active (effects s' e)"
    by (simp_all add: s' upd_effect_def cleanupEffect_deps)
  ultimately show ?thesis using o by simp
qed

lemma stop_idempotent:
  assumes "eval k (Stop e) s = Some (Normal, s')"
  shows "eval j (Stop e) s' = Some (Normal, s')"
proof -
  have "\<not> active (effects s' e)"
  proof (cases "active (effects s e)")
    case False
    with assms show ?thesis by simp
  next
    case True
    with assms obtain s2 where "s' = upd_effect e (\<lambda>ef. ef\<lparr>active := False\<rparr>) s2"
      by (auto simp: Let_def split: option.splits outcome.splits)
    then show ?thesis by (simp add: upd_effect_def)
  qed
  then show ?thesis by simp
qed

lemma stop_example:
  "(case stop_start of
      Some (out0, st) \<Rightarrow>
        members (depStore st 0) = [0] \<and> deps (effects st 0) = [0] \<and>
        (case eval 1 (Stop 0) st of
           Some (out, s') \<Rightarrow>
             out = Normal \<and> \<not> active (effects s' 0) \<and> deps (effects s' 0) = [] \<and>
             members (depStore s' 0) = [] \<and> trace s' = [FnCalled 0, OnStopCalled 0] \<and>
             map_option (\<lambda>(out2, s2). trace s2)
               (trigger 1 (Target PlainObject 0) SET (Some (KStr ''a'')) (Some 1) s') =
             Some [FnCalled 0, OnStopCalled 0]
         | None \<Rightarrow> False)
    | None \<Rightarrow> False)"
  by (simp add: stop_start_def rt_eval)

text \<open>
  Claim C2 fails when \<open>stop\<close> is called during the run of the effect itself.  The
  effect reads \<open>a\<close>, stops itself and reads \<open>b\<close>: it is still the active effect, so
  the read of \<open>b\<close> subscribes it again.  After the run it is inactive, the entry of
  \<open>b\<close> holds it, and a write to \<open>b\<close> calls its function again.
\<close>

theorem stop_during_own_run_resubscribes:
  "(case eval 1 (Run 0) self_stop_start of
      Some (out, s) \<Rightarrow>
        out = Normal \<and> \<not> active (effects s 0) \<and> trace s = [FnCalled 0] \<and>
        targetMap s (Target PlainObject 0) = Some [(KStr ''a'', 0), (KStr ''b'', 1)] \<and>
        deps (effects s 0) = [1] \<and> members (depStore s 1) = [0] \<and>
        map_option (\<lambda>(out', s'). (out', trace s'))
          (trigger 1 (Target PlainObject 0) SET (Some (KStr ''b'')) (Some 1) s) =
        Some (Normal, [FnCalled 0, FnCalled 0])
    | None \<Rightarrow> False)"
  by (simp add: self_stop_start_def rt_eval)

subsection \<open>Marker bits\<close>

subsection \<open>The marker bits\<close>

lemma shl1_nat: "0 \<le> l \<Longrightarrow> l \<le> 30 \<Longrightarrow> shl1 l = push_bit (nat l) 1"
  by (simp add: shl1_def)

lemma sint_pos_iff: "(sint (y :: 32 word) > 0) = (y \<noteq> 0 \<and> \<not> bit y 31)"
proof -
  have "bit y 31 = (sint y < 0)" using bit_last_iff[of y] by simp
  moreover have "(sint y = 0) = (y = 0)" by (rule signed_eq_0_iff)
  ultimately show ?thesis by auto
qed

lemma tracked_bit:
  assumes "0 \<le> l" "l \<le> 30"
  shows "(sint ((x :: 32 word) AND shl1 l) > 0) = bit x (nat l)"
proof -
  define m where "m = nat l"
  have m: "m \<le> 30" using assms by (simp add: m_def)
  have a: "x AND push_bit m 1 = (if bit x m then push_bit m 1 else 0)"
    by (rule bit_word_eqI) (auto simp: bit_simps)
  have b: "bit (push_bit m 1 :: 32 word) i = (i = m)" for i
    using m by (auto simp: bit_simps)
  have c: "(push_bit m 1 :: 32 word) \<noteq> 0"
    using b[of m] by (metis bit_0_eq bot_apply bot_bool_def)
  have d: "\<not> bit (push_bit m 1 :: 32 word) 31" using m b[of 31] by auto
  show ?thesis
    unfolding shl1_nat[OF assms] m_def[symmetric] sint_pos_iff a using c d by simp
qed

lemma bit_shl1:
  "0 \<le> d \<Longrightarrow> d \<le> 30 \<Longrightarrow> bit (shl1 d) i = (i = nat d)"
  by (auto simp: shl1_nat bit_simps)

subsection \<open>The link between effects and entries\<close>

lemma wasTracked_bit:
  "0 \<le> l \<Longrightarrow> l \<le> 30 \<Longrightarrow> wasTracked dp (shl1 l) = bit (w dp) (nat l)"
  "0 \<le> l \<Longrightarrow> l \<le> 30 \<Longrightarrow> newTracked dp (shl1 l) = bit (n dp) (nat l)"
  by (simp_all add: wasTracked_def newTracked_def tracked_bit)

lemma chain_lvl_on_chain: "chain_lvl efs p D x l \<Longrightarrow> on_chain efs p x"
  by (induction rule: chain_lvl.induct) (auto intro: on_chain.intros)

lemma chain_lvl_le: "chain_lvl efs p D x l \<Longrightarrow> l \<le> D"
  by (induction rule: chain_lvl.induct) auto

lemma chain_lvl_None: "\<not> chain_lvl efs None D x l"
  by (auto elim: chain_lvl.cases)

lemma chain_lvl_Some:
  "chain_lvl efs (Some p) D x l =
     (x = p \<and> l = D \<or> chain_lvl efs (parent (efs p)) (D - 1) x l)"
  by (auto elim: chain_lvl.cases intro: chain_lvl.intros)

lemma chain_lvl_pres:
  "chain_lvl efs p D x l \<Longrightarrow>
   (\<And>y. on_chain efs p y \<Longrightarrow> parent (efs' y) = parent (efs y)) \<Longrightarrow> chain_lvl efs' p D x l"
proof (induction rule: chain_lvl.induct)
  case (here x D)
  show ?case by (rule chain_lvl.here)
next
  case (up p D x l)
  have "chain_lvl efs' (parent (efs p)) (D - 1) x l"
    by (rule up.IH) (auto intro: up.prems on_chain.up)
  moreover have "parent (efs' p) = parent (efs p)"
    by (rule up.prems) (rule on_chain.here)
  ultimately show ?case by (auto intro: chain_lvl.up)
qed

lemma on_chain_pres_rev:
  "on_chain efs' p x \<Longrightarrow>
   (\<And>y. on_chain efs p y \<Longrightarrow> parent (efs' y) = parent (efs y)) \<Longrightarrow> on_chain efs p x"
proof (induction rule: on_chain.induct)
  case (here x)
  show ?case by (rule on_chain.here)
next
  case (up p x)
  have pe: "parent (efs' p) = parent (efs p)"
    by (rule up.prems) (rule on_chain.here)
  have "on_chain efs (parent (efs' p)) x"
    by (rule up.IH) (auto simp: pe intro: up.prems on_chain.up)
  then show ?case by (auto simp: pe intro: on_chain.up)
qed

lemma chain_lvl_pres_rev:
  "chain_lvl efs' p D x l \<Longrightarrow>
   (\<And>y. on_chain efs p y \<Longrightarrow> parent (efs' y) = parent (efs y)) \<Longrightarrow> chain_lvl efs p D x l"
proof (induction rule: chain_lvl.induct)
  case (here x D)
  show ?case by (rule chain_lvl.here)
next
  case (up p D x l)
  have pe: "parent (efs' p) = parent (efs p)"
    by (rule up.prems) (rule on_chain.here)
  have "chain_lvl efs (parent (efs' p)) (D - 1) x l"
    by (rule up.IH) (auto simp: pe intro: up.prems on_chain.up)
  then show ?case by (auto simp: pe intro: chain_lvl.up)
qed

lemma chain_lvl_same_parents:
  "(\<And>y. parent (efs' y) = parent (efs y)) \<Longrightarrow> chain_lvl efs' p D x l = chain_lvl efs p D x l"
  using chain_lvl_pres[of efs p D x l efs'] chain_lvl_pres[of efs' p D x l efs] by auto

text \<open>Steps that leave the graph, the allocation and the chain as they are.\<close>

lemma graph_ok_cong:
  assumes "depStore s' = depStore s" "\<And>e. deps (effects s' e) = deps (effects s e)"
    "\<And>e. parent (effects s' e) = parent (effects s e)" "nextDep s' = nextDep s"
    "targetMap s' = targetMap s" "\<And>c. cdep (computeds s' c) = cdep (computeds s c)"
    "trackOpBit s' = trackOpBit s" "effectTrackDepth s' = effectTrackDepth s"
    "activeEffect s' = activeEffect s"
  shows "graph_ok s' = graph_ok s"
proof -
  have c: "chain_lvl (effects s') p D x l = chain_lvl (effects s) p D x l" for p D x l
    by (rule chain_lvl_same_parents) (rule assms(3))
  show ?thesis
    by (simp add: graph_ok_def linked_def alloc_ok_def levels_ok_def assms c)
qed

lemma graph_ok_simple:
  "graph_ok (emit ev s) = graph_ok s"
  "graph_ok (pauseTracking s) = graph_ok s"
  "graph_ok (enableTracking s) = graph_ok s"
  "graph_ok (resetTracking s) = graph_ok s"
  "graph_ok (upd_computed c (\<lambda>cr. cr\<lparr>dirty := b\<rparr>) s) = graph_ok s"
  "graph_ok (upd_effect e (\<lambda>ef. ef\<lparr>active := False\<rparr>) s) = graph_ok s"
  by (rule graph_ok_cong;
      simp add: emit_def pauseTracking_def enableTracking_def resetTracking_def upd_computed_def
        upd_effect_def)+

lemma trackEffects_fields:
  "depStore (trackEffects d a s) d' =
     (if d' = d then
        (let dp1 = (if te_mark d s then (depStore s d)\<lparr>n := n (depStore s d) OR trackOpBit s\<rparr>
                    else depStore s d)
         in if te_add d a s then dp1\<lparr>members := set_add (members dp1) a\<rparr> else dp1)
      else depStore s d')"
  "deps (effects (trackEffects d a s) x) =
     (if x = a \<and> te_add d a s then deps (effects s a) @ [d] else deps (effects s x))"
  "nextDep (trackEffects d a s) = nextDep s" "targetMap (trackEffects d a s) = targetMap s"
  "computeds (trackEffects d a s) = computeds s"
  by (auto simp: trackEffects_def te_mark_def te_add_def Let_def upd_effect_def upd_dep_def)

lemma levels_okD:
  assumes "levels_ok s" "chain_lvl (effects s) (activeEffect s) (effectTrackDepth s) x l"
  shows "1 \<le> l"
    and "chain_lvl (effects s) (activeEffect s) (effectTrackDepth s) x l' \<Longrightarrow> l' = l"
    and "l \<le> 30 \<Longrightarrow> d \<in> set (deps (effects s x)) \<Longrightarrow> marked (depStore s d) l"
  using assms by (auto simp: levels_ok_def)

lemma trackEffects_ok:
  assumes ok: "graph_ok s" and ae: "activeEffect s = Some a" and al: "d < nextDep s"
  shows "graph_ok (trackEffects d a s)"
proof -
  define s' where "s' = trackEffects d a s"
  define D where "D = effectTrackDepth s"
  from ok have li: "linked s" and di: "\<And>e. distinct (deps (effects s e))"
    and ao: "alloc_ok s" and lo: "levels_ok s"
    by (simp_all add: graph_ok_def)
  have top: "chain_lvl (effects s) (activeEffect s) (effectTrackDepth s) a D"
    by (simp add: ae D_def chain_lvl.here)
  from levels_okD(1)[OF lo top] have D1: "1 \<le> D" .
  from lo have tb: "trackOpBit s = shl1 D" by (simp add: levels_ok_def D_def)
  have c: "same_ctl s s'" by (simp add: s'_def trackEffects_ctl)
  note f = same_ctl_fields[OF c]
  have ch: "chain_lvl (effects s') p E x l = chain_lvl (effects s) p E x l" for p E x l
    by (rule chain_lvl_same_parents) (rule f(1))
  have nd: "d \<notin> set (deps (effects s a))" if add: "te_add d a s"
  proof (cases "D \<le> 30")
    case True
    with add D1 have "\<not> marked (depStore s d) D"
      by (simp add: te_add_def D_def[symmetric] maxMarkerBits_def tb wasTracked_bit marked_def)
    with levels_okD(3)[OF lo top True] show ?thesis by auto
  next
    case False
    with add have "a \<notin> set (members (depStore s d))"
      by (simp add: te_add_def D_def[symmetric] maxMarkerBits_def)
    with li show ?thesis by (simp add: linked_def)
  qed
  have mem: "set (members (depStore s' d')) =
      (if d' = d \<and> te_add d a s then insert a (set (members (depStore s d')))
       else set (members (depStore s d')))" for d'
    by (auto simp: s'_def trackEffects_fields Let_def set_add_def)
  have dps: "set (deps (effects s' x)) =
      (if x = a \<and> te_add d a s then insert d (set (deps (effects s x)))
       else set (deps (effects s x)))" for x
    by (auto simp: s'_def trackEffects_fields)
  have l': "linked s'"
    using li unfolding linked_def mem dps by auto
  have d': "distinct (deps (effects s' e))" for e
    using di[of e] nd by (auto simp: s'_def trackEffects_fields)
  have a': "alloc_ok s'"
    using ao al unfolding alloc_ok_def dps
    by (auto simp: s'_def trackEffects_fields)
  have mk: "marked (depStore s' d') l" if "marked (depStore s d') l" for d' l
    using that by (auto simp: s'_def trackEffects_fields Let_def marked_def bit_or_iff)
  have lv: "levels_ok s'"
    unfolding levels_ok_def
  proof (intro conjI allI impI ballI)
    show "trackOpBit s' = shl1 (effectTrackDepth s')"
      using c lo by (simp add: same_ctl_def levels_ok_def)
    show "0 \<le> effectTrackDepth s'" using c lo by (simp add: same_ctl_def levels_ok_def)
  next
    fix x l
    assume "chain_lvl (effects s') (activeEffect s') (effectTrackDepth s') x l"
    then have cl: "chain_lvl (effects s) (activeEffect s) (effectTrackDepth s) x l"
      using c by (simp add: ch same_ctl_def)
    show "1 \<le> l" by (rule levels_okD(1)[OF lo cl])
    {
      fix l' assume "chain_lvl (effects s') (activeEffect s') (effectTrackDepth s') x l'"
      then have "chain_lvl (effects s) (activeEffect s) (effectTrackDepth s) x l'"
        using c by (simp add: ch same_ctl_def)
      then show "l' = l" by (rule levels_okD(2)[OF lo cl])
    }
    {
      fix d' assume l30: "l \<le> 30" and m: "d' \<in> set (deps (effects s' x))"
      show "marked (depStore s' d') l"
      proof (cases "d' \<in> set (deps (effects s x))")
        case True
        from levels_okD(3)[OF lo cl l30 True] show ?thesis by (rule mk)
      next
        case False
        with m have xa: "x = a" and add: "te_add d a s" and dd: "d' = d"
          by (auto simp: dps split: if_splits)
        from levels_okD(2)[OF lo cl, of D] top xa have lD: "l = D" by simp
        with l30 add have mark: "te_mark d s"
          by (simp add: te_add_def te_mark_def D_def maxMarkerBits_def)
        have "bit (n (depStore s' d)) (nat D)"
          using mark add l30 lD D1
          by (simp add: s'_def trackEffects_fields Let_def tb bit_or_iff bit_shl1)
        then show ?thesis by (simp add: marked_def dd lD)
      qed
    }
  qed
  from l' d' a' lv show ?thesis by (simp add: graph_ok_def s'_def)
qed

lemma alloc_okD:
  assumes "alloc_ok s"
  shows "d \<in> set (deps (effects s e)) \<Longrightarrow> d < nextDep s"
    and "targetMap s t = Some m \<Longrightarrow> (k, d) \<in> set m \<Longrightarrow> d < nextDep s"
    and "cdep (computeds s c) = Some d \<Longrightarrow> d < nextDep s"
  using assms unfolding alloc_ok_def by blast+

lemma graph_ok_targetMap:
  assumes ok: "graph_ok s" and m: "depsMap = (case targetMap s t of None \<Rightarrow> [] | Some m \<Rightarrow> m)"
  shows "graph_ok (s\<lparr>targetMap := (targetMap s)(t \<mapsto> depsMap)\<rparr>)"
proof -
  from ok have "alloc_ok s" by (simp add: graph_ok_def)
  then have "alloc_ok (s\<lparr>targetMap := (targetMap s)(t \<mapsto> depsMap)\<rparr>)"
    unfolding alloc_ok_def using m by (auto split: option.splits if_splits)
  with ok show ?thesis
    by (simp add: graph_ok_def linked_def levels_ok_def)
qed

lemma graph_ok_alloc:
  assumes ok: "graph_ok s"
    and ef: "effects s' = effects s" and ae: "activeEffect s' = activeEffect s"
    and de: "effectTrackDepth s' = effectTrackDepth s" and tb: "trackOpBit s' = trackOpBit s"
    and ds: "depStore s' = (depStore s)(nextDep s := createDep [])"
    and nd: "nextDep s' = nextDep s + 1"
    and tm: "\<And>t m k d. targetMap s' t = Some m \<Longrightarrow> (k, d) \<in> set m \<Longrightarrow> d \<le> nextDep s"
    and cs: "\<And>c d. cdep (computeds s' c) = Some d \<Longrightarrow> d \<le> nextDep s"
  shows "graph_ok s'"
proof -
  from ok have li: "linked s" and di: "\<And>e. distinct (deps (effects s e))"
    and ao: "alloc_ok s" and lo: "levels_ok s"
    by (simp_all add: graph_ok_def)
  have lt: "d \<in> set (deps (effects s e)) \<Longrightarrow> d < nextDep s" for e d
    by (rule alloc_okD(1)[OF ao])
  then have fresh: "nextDep s \<notin> set (deps (effects s e))" for e
    by blast
  have 1: "linked s'"
    using li fresh by (auto simp: linked_def createDep_def ef ds)
  have 2: "alloc_ok s'"
    unfolding alloc_ok_def
  proof (intro conjI allI ballI impI)
    fix e d assume "d \<in> set (deps (effects s' e))"
    then show "d < nextDep s'" using lt[of d e] by (simp add: ef nd)
  next
    fix t m k d assume "targetMap s' t = Some m" "(k, d) \<in> set m"
    then show "d < nextDep s'" using tm[of t m k d] by (simp add: nd)
  next
    fix c d assume "cdep (computeds s' c) = Some d"
    then show "d < nextDep s'" using cs[of c d] by (simp add: nd)
  qed
  have 3: "levels_ok s'"
    using lo fresh unfolding levels_ok_def by (auto simp: ef ae de tb ds)
  from 1 2 3 di show ?thesis by (simp add: graph_ok_def ef)
qed

lemma track_ok: "graph_ok s \<Longrightarrow> graph_ok (track t ky s)"
proof -
  assume ok: "graph_ok s"
  then have ao: "alloc_ok s" by (simp add: graph_ok_def)
  show ?thesis
  proof (cases "shouldTrack s")
    case False
    with ok show ?thesis by (simp add: track_def)
  next
    case True
    show ?thesis
    proof (cases "activeEffect s")
      case None
      with ok True show ?thesis by (simp add: track_def)
    next
      case (Some a)
      define depsMap where "depsMap = (case targetMap s t of None \<Rightarrow> [] | Some m \<Rightarrow> m)"
      show ?thesis
      proof (cases "map_of depsMap ky")
        case (Some d)
        define s1 where "s1 = s\<lparr>targetMap := (targetMap s)(t \<mapsto> depsMap)\<rparr>"
        have o1: "graph_ok s1" unfolding s1_def by (rule graph_ok_targetMap[OF ok depsMap_def])
        from Some have "(ky, d) \<in> set depsMap" by (rule map_of_SomeD)
        then obtain m where "targetMap s t = Some m" "(ky, d) \<in> set m"
          by (cases "targetMap s t") (auto simp: depsMap_def)
        then have "d < nextDep s" by (rule alloc_okD(2)[OF ao])
        then have "d < nextDep s1" by (simp add: s1_def)
        moreover have "activeEffect s1 = Some a" using \<open>activeEffect s = Some a\<close> by (simp add: s1_def)
        ultimately have "graph_ok (trackEffects d a s1)" by (rule trackEffects_ok[OF o1, rotated])
        with True \<open>activeEffect s = Some a\<close> Some show ?thesis
          by (simp add: track_def depsMap_def[symmetric] s1_def Let_def)
      next
        case None
        define s1 where "s1 = s\<lparr>targetMap := (targetMap s)(t \<mapsto> depsMap @ [(ky, nextDep s)]),
               depStore := (depStore s)(nextDep s := createDep []), nextDep := nextDep s + 1\<rparr>"
        have o1: "graph_ok s1"
        proof (rule graph_ok_alloc[OF ok])
          fix t' m k d
          assume "targetMap s1 t' = Some m" "(k, d) \<in> set m"
          then have "((targetMap s)(t \<mapsto> depsMap @ [(ky, nextDep s)])) t' = Some m" "(k, d) \<in> set m"
            by (simp_all add: s1_def)
          then show "d \<le> nextDep s"
            using alloc_okD(2)[OF ao, of t' m k d] alloc_okD(2)[OF ao, of t _ k d]
            by (cases "targetMap s t") (auto simp: depsMap_def split: if_splits)
        next
          fix c d assume "cdep (computeds s1 c) = Some d"
          then show "d \<le> nextDep s" using alloc_okD(3)[OF ao, of c d] by (simp add: s1_def)
        qed (simp_all add: s1_def)
        have "graph_ok (trackEffects (nextDep s) a s1)"
          by (rule trackEffects_ok[OF o1]) (simp_all add: s1_def \<open>activeEffect s = Some a\<close>)
        moreover have "track t ky s = trackEffects (nextDep s) a s1"
          using True \<open>activeEffect s = Some a\<close> None
          by (simp add: track_def depsMap_def[symmetric] s1_def Let_def)
        ultimately show ?thesis by simp
      qed
    qed
  qed
qed

lemma trackRefValue_ok: "graph_ok s \<Longrightarrow> graph_ok (trackRefValue c s)"
proof -
  assume ok: "graph_ok s"
  then have ao: "alloc_ok s" by (simp add: graph_ok_def)
  show ?thesis
  proof (cases "shouldTrack s")
    case False
    with ok show ?thesis by (simp add: trackRefValue_def)
  next
    case True
    show ?thesis
    proof (cases "activeEffect s")
      case None
      with ok True show ?thesis by (simp add: trackRefValue_def)
    next
      case (Some a)
      show ?thesis
      proof (cases "cdep (computeds s c)")
        case (Some d)
        then have "d < nextDep s" by (rule alloc_okD(3)[OF ao])
        with ok \<open>activeEffect s = Some a\<close> have "graph_ok (trackEffects d a s)"
          by (intro trackEffects_ok)
        with True \<open>activeEffect s = Some a\<close> Some show ?thesis
          by (simp add: trackRefValue_def)
      next
        case None
        define s1 where "s1 = upd_computed c (\<lambda>cr. cr\<lparr>cdep := Some (nextDep s)\<rparr>)
                        (s\<lparr>depStore := (depStore s)(nextDep s := createDep []), nextDep := nextDep s + 1\<rparr>)"
        have o1: "graph_ok s1"
        proof (rule graph_ok_alloc[OF ok])
          fix t' m k d
          assume "targetMap s1 t' = Some m" "(k, d) \<in> set m"
          then have "targetMap s t' = Some m" "(k, d) \<in> set m"
            by (simp_all add: s1_def upd_computed_def)
          then show "d \<le> nextDep s" using alloc_okD(2)[OF ao, of t' m k d] by simp
        next
          fix c' d
          assume "cdep (computeds s1 c') = Some d"
          then show "d \<le> nextDep s" using alloc_okD(3)[OF ao, of c' d]
            by (auto simp: s1_def upd_computed_def split: if_splits)
        qed (simp_all add: s1_def upd_computed_def)
        have "graph_ok (trackEffects (nextDep s) a s1)"
          by (rule trackEffects_ok[OF o1])
             (simp_all add: s1_def upd_computed_def \<open>activeEffect s = Some a\<close>)
        moreover have "trackRefValue c s = trackEffects (nextDep s) a s1"
          using True \<open>activeEffect s = Some a\<close> None
          by (simp add: trackRefValue_def s1_def Let_def)
        ultimately show ?thesis by simp
      qed
    qed
  qed
qed

lemma levels_ok_mono:
  assumes lo: "levels_ok s"
    and tb: "trackOpBit s' = trackOpBit s" and de: "effectTrackDepth s' = effectTrackDepth s"
    and ae: "activeEffect s' = activeEffect s"
    and pa: "\<And>y. parent (effects s' y) = parent (effects s y)"
    and dp: "\<And>x. set (deps (effects s' x)) \<subseteq> set (deps (effects s x))"
    and mk: "\<And>d l. marked (depStore s d) l \<Longrightarrow> marked (depStore s' d) l"
  shows "levels_ok s'"
proof -
  have ch: "chain_lvl (effects s') p E x l = chain_lvl (effects s) p E x l" for p E x l
    by (rule chain_lvl_same_parents) (rule pa)
  have 1: "trackOpBit s' = shl1 (effectTrackDepth s')" using lo by (simp add: levels_ok_def tb de)
  have 2: "0 \<le> effectTrackDepth s'" using lo by (simp add: levels_ok_def de)
  have 3: "1 \<le> l \<and>
         (\<forall>l'. chain_lvl (effects s') (activeEffect s') (effectTrackDepth s') x l' \<longrightarrow> l' = l) \<and>
         (l \<le> 30 \<longrightarrow> (\<forall>d \<in> set (deps (effects s' x)). marked (depStore s' d) l))"
    if "chain_lvl (effects s') (activeEffect s') (effectTrackDepth s') x l" for x l
  proof -
    from that have c: "chain_lvl (effects s) (activeEffect s) (effectTrackDepth s) x l"
      by (simp add: ch ae de)
    have a: "1 \<le> l" by (rule levels_okD(1)[OF lo c])
    have b: "l' = l" if "chain_lvl (effects s') (activeEffect s') (effectTrackDepth s') x l'" for l'
    proof -
      from that have "chain_lvl (effects s) (activeEffect s) (effectTrackDepth s) x l'"
        by (simp add: ch ae de)
      then show ?thesis by (rule levels_okD(2)[OF lo c])
    qed
    have d: "marked (depStore s' d) l" if "l \<le> 30" "d \<in> set (deps (effects s' x))" for d
    proof -
      from that(2) dp have "d \<in> set (deps (effects s x))" by blast
      from levels_okD(3)[OF lo c that(1) this] show ?thesis by (rule mk)
    qed
    from a b d show ?thesis by blast
  qed
  from 1 2 3 show ?thesis unfolding levels_ok_def by blast
qed

lemma cleanupEffect_ok:
  assumes ok: "graph_ok s"
  shows "graph_ok (cleanupEffect e s)"
proof -
  from ok have li: "linked s" and di: "\<And>e. distinct (deps (effects s e))"
    and ao: "alloc_ok s" and lo: "levels_ok s"
    by (simp_all add: graph_ok_def)
  note f = same_ctl_fields[OF cleanupEffect_ctl[of s e]]
  note c = same_ctl_frame[OF cleanupEffect_ctl[of s e]]
  have 1: "linked (cleanupEffect e s)"
    using li by (auto simp: linked_def cleanupEffect_store cleanupEffect_deps set_delete_def)
  have 2: "distinct (deps (effects (cleanupEffect e s) x))" for x
    using di by (simp add: cleanupEffect_deps)
  have 3: "alloc_ok (cleanupEffect e s)"
    using ao by (simp add: alloc_ok_def cleanupEffect_deps cleanupEffect_other)
  have 4: "levels_ok (cleanupEffect e s)"
  proof (rule levels_ok_mono[OF lo])
    show "trackOpBit (cleanupEffect e s) = trackOpBit s"
      "effectTrackDepth (cleanupEffect e s) = effectTrackDepth s"
      "activeEffect (cleanupEffect e s) = activeEffect s"
      using cleanupEffect_ctl[of s e] by (simp_all add: same_ctl_def)
    show "parent (effects (cleanupEffect e s) y) = parent (effects s y)" for y by (rule f(1))
    show "set (deps (effects (cleanupEffect e s) x)) \<subseteq> set (deps (effects s x))" for x
      by (simp add: cleanupEffect_deps)
    show "marked (depStore s d) l \<Longrightarrow> marked (depStore (cleanupEffect e s) d) l" for d l
      by (simp add: marked_def cleanupEffect_store)
  qed
  from 1 2 3 4 show ?thesis by (simp add: graph_ok_def)
qed

lemma fold_init_store:
  "depStore (fold (\<lambda>d. upd_dep d (\<lambda>dp. dp\<lparr>w := w dp OR tb\<rparr>)) ds s) d' =
     (if d' \<in> set ds then (depStore s d')\<lparr>w := w (depStore s d') OR tb\<rparr> else depStore s d')"
proof (induction ds arbitrary: s)
  case Nil
  show ?case by simp
next
  case (Cons d ds)
  show ?case
    by (simp add: Cons.IH) (simp add: upd_dep_def)
qed

lemma fold_upd_dep_other:
  "nextDep (fold (\<lambda>d. upd_dep d (f d)) ds s) = nextDep s"
  "targetMap (fold (\<lambda>d. upd_dep d (f d)) ds s) = targetMap s"
  by (induction ds arbitrary: s) (simp_all add: upd_dep_def)

lemma run_enter_fields:
  "deps (effects (run_enter e s) x) =
     (if effectTrackDepth s + 1 \<le> 30 then deps (effects s x)
      else if x = e then [] else deps (effects s x))"
  "depStore (run_enter e s) d =
     (if d \<in> set (deps (effects s e)) then
        (if effectTrackDepth s + 1 \<le> 30
         then (depStore s d)\<lparr>w := w (depStore s d) OR shl1 (effectTrackDepth s + 1)\<rparr>
         else (depStore s d)\<lparr>members := set_delete (members (depStore s d)) e\<rparr>)
      else depStore s d)"
  "nextDep (run_enter e s) = nextDep s" "targetMap (run_enter e s) = targetMap s"
  "computeds (run_enter e s) = computeds s"
  by (simp_all add: run_enter_def Let_def initDepMarkers_def fold_init_store fold_upd_dep_effects
        fold_upd_dep_other fold_upd_dep_computeds cleanupEffect_store cleanupEffect_deps
        cleanupEffect_other upd_effect_def maxMarkerBits_def)

lemma on_chain_chain_lvl: "on_chain efs p x \<Longrightarrow> \<exists>l. chain_lvl efs p D x l"
proof (induction arbitrary: D rule: on_chain.induct)
  case (here x)
  show ?case by (blast intro: chain_lvl.here)
next
  case (up p x)
  from up.IH[of "D - 1"] show ?case by (blast intro: chain_lvl.up)
qed

lemma marked_or:
  "marked dp l \<Longrightarrow> marked (dp\<lparr>w := w dp OR tb\<rparr>) l"
  "marked dp l \<Longrightarrow> marked (dp\<lparr>members := ms\<rparr>) l"
  by (auto simp: marked_def bit_or_iff)

lemma run_enter_ok:
  assumes ok: "graph_ok s" and nc: "\<not> on_chain (effects s) (activeEffect s) e"
  shows "graph_ok (run_enter e s)"
proof -
  define s' where "s' = run_enter e s"
  define D where "D = effectTrackDepth s"
  from ok have li: "linked s" and di: "\<And>e. distinct (deps (effects s e))"
    and ao: "alloc_ok s" and lo: "levels_ok s"
    by (simp_all add: graph_ok_def)
  from lo have D0: "0 \<le> D" by (simp add: levels_ok_def D_def)
  note c = run_enter_ctl[of e s, folded s'_def D_def]
  note f = run_enter_fields[of e s, folded s'_def D_def]
  have 1: "linked s'"
    using li by (auto simp: linked_def f set_delete_def)
  have 2: "distinct (deps (effects s' x))" for x
    using di by (simp add: f)
  have 3: "alloc_ok s'"
    using ao by (simp add: alloc_ok_def f)
  have old: "chain_lvl (effects s') (activeEffect s) D x l = chain_lvl (effects s) (activeEffect s) D x l"
    for x l
  proof -
    have p: "parent (effects s' y) = parent (effects s y)"
      if "on_chain (effects s) (activeEffect s) y" for y
      using that nc by (auto simp: c(5))
    show ?thesis
      using chain_lvl_pres[of "effects s" "activeEffect s" D x l "effects s'"]
        chain_lvl_pres_rev[of "effects s'" "activeEffect s" D x l "effects s"] p
      by blast
  qed
  have ch: "chain_lvl (effects s') (activeEffect s') (effectTrackDepth s') x l =
      (x = e \<and> l = D + 1 \<or> chain_lvl (effects s) (activeEffect s) D x l)" for x l
    by (simp add: c(1,2) chain_lvl_Some c(5) old)
  have ne: "x \<noteq> e" if "chain_lvl (effects s) (activeEffect s) D x l" for x l
    using chain_lvl_on_chain[OF that] nc by auto
  have mk: "marked (depStore s d) l \<Longrightarrow> marked (depStore s' d) l" for d l
    by (simp add: f marked_or)
  have 4: "levels_ok s'"
  proof -
    have a: "trackOpBit s' = shl1 (effectTrackDepth s')" by (simp add: c)
    have b: "0 \<le> effectTrackDepth s'" using D0 by (simp add: c)
    have d: "1 \<le> l \<and>
         (\<forall>l'. chain_lvl (effects s') (activeEffect s') (effectTrackDepth s') x l' \<longrightarrow> l' = l) \<and>
         (l \<le> 30 \<longrightarrow> (\<forall>d \<in> set (deps (effects s' x)). marked (depStore s' d) l))"
      if "chain_lvl (effects s') (activeEffect s') (effectTrackDepth s') x l" for x l
    proof -
      from that have "x = e \<and> l = D + 1 \<or> chain_lvl (effects s) (activeEffect s) D x l"
        by (simp add: ch)
      then show ?thesis
      proof
        assume xe: "x = e \<and> l = D + 1"
        have u: "l' = l" if "chain_lvl (effects s') (activeEffect s') (effectTrackDepth s') x l'" for l'
          using that xe ne[of e l'] by (auto simp: ch)
        have m: "marked (depStore s' d) l" if "l \<le> 30" "d \<in> set (deps (effects s' x))" for d
          using that xe D0 by (auto simp: f marked_def bit_or_iff bit_shl1)
        from xe D0 u m show ?thesis by auto
      next
        assume o: "chain_lvl (effects s) (activeEffect s) D x l"
        then have o': "chain_lvl (effects s) (activeEffect s) (effectTrackDepth s) x l"
          by (simp add: D_def)
        have u: "l' = l" if "chain_lvl (effects s') (activeEffect s') (effectTrackDepth s') x l'" for l'
        proof -
          from that ne[OF o] have "chain_lvl (effects s) (activeEffect s) (effectTrackDepth s) x l'"
            by (auto simp: ch D_def)
          then show ?thesis by (rule levels_okD(2)[OF lo o'])
        qed
        have m: "marked (depStore s' d) l" if "l \<le> 30" "d \<in> set (deps (effects s' x))" for d
        proof -
          from that(2) ne[OF o] have "d \<in> set (deps (effects s x))"
            by (auto simp: f split: if_splits)
          from levels_okD(3)[OF lo o' that(1) this] show ?thesis by (rule mk)
        qed
        from levels_okD(1)[OF lo o'] u m show ?thesis by blast
      qed
    qed
    from a b d show ?thesis unfolding levels_ok_def by blast
  qed
  from 1 2 3 4 show ?thesis by (simp add: graph_ok_def s'_def)
qed

lemma run_finally_other:
  "nextDep (run_finally e l s) = nextDep s" "targetMap (run_finally e l s) = targetMap s"
  "computeds (run_finally e l s) = computeds s"
  by (simp_all add: run_finally_def Let_def finalizeDepMarkers_def upd_effect_def
        split: prod.splits)

lemma finalized_fields:
  "members (finalized e tb st d) =
     (if stale st tb d then set_delete (members (st d)) e else members (st d))"
  "w (finalized e tb st d) = w (st d) AND NOT tb"
  "n (finalized e tb st d) = n (st d) AND NOT tb"
  by (simp_all add: finalized_def clearBits_def)

lemma marked_finalized:
  assumes "0 \<le> D" "D \<le> 30" "0 \<le> l" "l \<noteq> D" "marked (st d) l"
  shows "marked (finalized e (shl1 D) st d) l"
  using assms
  by (auto simp: marked_def finalized_fields bit_and_iff bit_not_iff bit_shl1
      dest: bit_imp_le_length)

lemma run_finally_ok:
  assumes ok: "graph_ok s" and ae: "activeEffect s = Some e"
  shows "graph_ok (run_finally e b s)"
proof -
  define s' where "s' = run_finally e b s"
  define D where "D = effectTrackDepth s"
  define p where "p = parent (effects s e)"
  from ok have li: "linked s" and di: "\<And>e. distinct (deps (effects s e))"
    and ao: "alloc_ok s" and lo: "levels_ok s"
    by (simp_all add: graph_ok_def)
  have top: "chain_lvl (effects s) (activeEffect s) (effectTrackDepth s) e D"
    by (simp add: ae D_def chain_lvl.here)
  from levels_okD(1)[OF lo top] have D1: "1 \<le> D" .
  from lo have tb: "trackOpBit s = shl1 D" by (simp add: levels_ok_def D_def)
  note c = run_finally_ctl[of e b s, folded s'_def D_def p_def]
  note o = run_finally_other[of e b s, folded s'_def]
  have st: "depStore s' d =
      (if D \<le> 30 \<and> d \<in> set (deps (effects s e)) then finalized e (shl1 D) (depStore s) d
       else depStore s d)" for d
    by (simp add: s'_def run_finally_store finalizeDepMarkers_eq[OF di] D_def[symmetric]
          maxMarkerBits_def tb)
  have dp: "deps (effects s' x) =
      (if D \<le> 30 \<and> x = e
       then filter (\<lambda>d. \<not> stale (depStore s) (shl1 D) d) (deps (effects s e))
       else deps (effects s x))" for x
    by (simp add: s'_def run_finally_store finalizeDepMarkers_eq[OF di] D_def[symmetric]
          maxMarkerBits_def tb)
  have 1: "linked s'"
    using li by (auto simp: linked_def st dp finalized_fields set_delete_def)
  have 2: "distinct (deps (effects s' x))" for x
    using di by (simp add: dp)
  have 3: "alloc_ok s'"
    using ao by (auto simp: alloc_ok_def dp o)
  have up: "chain_lvl (effects s) (activeEffect s) (effectTrackDepth s) x l"
    if "chain_lvl (effects s) p (D - 1) x l" for x l
    using that by (simp add: ae D_def[symmetric] p_def chain_lvl.up)
  have nc: "\<not> on_chain (effects s) p e"
  proof
    assume "on_chain (effects s) p e"
    from on_chain_chain_lvl[OF this, of "D - 1"] obtain l
      where l: "chain_lvl (effects s) p (D - 1) e l" by blast
    from chain_lvl_le[OF l] have "l \<le> D - 1" .
    moreover from levels_okD(2)[OF lo top up[OF l]] have "l = D" .
    ultimately show False by simp
  qed
  have old: "chain_lvl (effects s) p (D - 1) x l"
    if "chain_lvl (effects s') p (D - 1) x l" for x l
  proof (rule chain_lvl_pres_rev[OF that])
    fix y assume "on_chain (effects s) p y"
    with nc have "y \<noteq> e" by auto
    then show "parent (effects s' y) = parent (effects s y)" by (simp add: c(6))
  qed
  have 4: "levels_ok s'"
  proof -
    have a: "trackOpBit s' = shl1 (effectTrackDepth s')" by (simp add: c)
    have b: "0 \<le> effectTrackDepth s'" using D1 by (simp add: c)
    have d: "1 \<le> l \<and>
         (\<forall>l'. chain_lvl (effects s') (activeEffect s') (effectTrackDepth s') x l' \<longrightarrow> l' = l) \<and>
         (l \<le> 30 \<longrightarrow> (\<forall>d \<in> set (deps (effects s' x)). marked (depStore s' d) l))"
      if "chain_lvl (effects s') (activeEffect s') (effectTrackDepth s') x l" for x l
    proof -
      from that have q: "chain_lvl (effects s) p (D - 1) x l" by (simp add: c old)
      note q' = up[OF q]
      from chain_lvl_le[OF q] have lD: "l \<le> D - 1" .
      from chain_lvl_on_chain[OF q] nc have xe: "x \<noteq> e" by auto
      have l1: "1 \<le> l" by (rule levels_okD(1)[OF lo q'])
      have u: "l' = l" if "chain_lvl (effects s') (activeEffect s') (effectTrackDepth s') x l'" for l'
      proof -
        from that have "chain_lvl (effects s) p (D - 1) x l'" by (simp add: c old)
        from levels_okD(2)[OF lo q' up[OF this]] show ?thesis .
      qed
      have m: "marked (depStore s' d) l" if "l \<le> 30" "d \<in> set (deps (effects s' x))" for d
      proof -
        from that(2) xe have "d \<in> set (deps (effects s x))" by (simp add: dp)
        from levels_okD(3)[OF lo q' that(1) this] have mk: "marked (depStore s d) l" .
        show ?thesis
        proof (cases "D \<le> 30 \<and> d \<in> set (deps (effects s e))")
          case True
          then have "depStore s' d = finalized e (shl1 D) (depStore s) d" by (simp add: st)
          moreover have "0 \<le> D" "D \<le> 30" "0 \<le> l" "l \<noteq> D"
            using D1 True l1 lD by auto
          then have "marked (finalized e (shl1 D) (depStore s) d) l"
            using mk by (rule marked_finalized)
          ultimately show ?thesis by simp
        next
          case False
          then have "depStore s' d = depStore s d" by (auto simp: st)
          with mk show ?thesis by simp
        qed
      qed
      from l1 u m show ?thesis by blast
    qed
    from a b d show ?thesis unfolding levels_ok_def by blast
  qed
  from 1 2 3 4 show ?thesis by (simp add: graph_ok_def s'_def)
qed

subsection \<open>The graph stays well formed\<close>

lemma graph_ok_init:
  assumes "\<And>e. deps (efs e) = []" and "\<And>c. cdep (cs c) = None"
  shows "graph_ok (rt_init efs cs)"
proof -
  have 1: "linked (rt_init efs cs)"
    by (simp add: linked_def rt_init_def createDep_def assms)
  have 2: "alloc_ok (rt_init efs cs)"
    by (simp add: alloc_ok_def rt_init_def assms)
  have 3: "levels_ok (rt_init efs cs)"
    by (simp add: levels_ok_def rt_init_def shl1_def chain_lvl_None)
  from 1 2 3 show ?thesis by (simp add: graph_ok_def rt_init_def assms)
qed

text \<open>
  Every call that returns, normally or by an exception, from a state with a well-formed
  graph leaves the graph well formed.
\<close>

lemma eval_graph_ok:
  assumes ev: "eval k c s = Some (out, s')" and ok: "graph_ok s"
  shows "graph_ok s'"
proof -
  define R where "R = (\<lambda>s s'. frame s s' \<and> (graph_ok s \<longrightarrow> graph_ok s'))"
  have refl: "\<And>s. R s s" by (simp add: R_def frame_refl)
  have trans: "\<And>s s1 s2. R s s1 \<Longrightarrow> R s1 s2 \<Longrightarrow> R s s2"
    unfolding R_def using frame_trans by blast
  have r_track: "\<And>s t ky. R s (track t ky s)"
    by (simp add: R_def frame_prims track_ok)
  have r_pause: "\<And>s. R s (pauseTracking s)"
    by (simp add: R_def frame_prims graph_ok_simple)
  have r_enable: "\<And>s. R s (enableTracking s)"
    by (simp add: R_def frame_prims graph_ok_simple)
  have r_reset: "\<And>s. R s (resetTracking s)"
    by (simp add: R_def frame_prims graph_ok_simple)
  have r_sched: "\<And>s e. R s (emit (SchedulerCalled e) s)"
    by (simp add: R_def emit_frame graph_ok_simple)
  have r_onStop: "\<And>s e. R s (emit (OnStopCalled e) s)"
    by (simp add: R_def emit_frame graph_ok_simple)
  have r_inactive: "\<And>s e s2. \<not> active (effects s e) \<Longrightarrow> R (emit (FnCalled e) s) s2 \<Longrightarrow> R s s2"
    unfolding R_def using frame_inactive by (simp add: graph_ok_simple) blast
  have r_dirty: "\<And>s c b. R s (upd_computed c (\<lambda>cr. cr\<lparr>dirty := b\<rparr>) s)"
    by (simp add: R_def frame_prims graph_ok_simple)
  have r_trackRef: "\<And>s c. R s (trackRefValue c s)"
    by (simp add: R_def frame_prims trackRefValue_ok)
  have r_cleanup: "\<And>s e. active (effects s e) \<Longrightarrow> R s (cleanupEffect e s)"
    by (simp add: R_def frame_prims cleanupEffect_ok)
  have r_deactivate: "\<And>s e. R s (upd_effect e (\<lambda>ef. ef\<lparr>active := False\<rparr>) s)"
    by (simp add: R_def frame_prims graph_ok_simple)
  have r_run: "\<And>s e s2 k. active (effects s e) \<Longrightarrow>
        walkParents k (effects s) (activeEffect s) e = Some False \<Longrightarrow>
        R (emit (FnCalled e) (run_enter e s)) s2 \<Longrightarrow> R s (run_finally e (shouldTrack s) s2)"
  proof -
    fix s e s2 k
    assume wp: "walkParents k (effects s) (activeEffect s) e = Some False"
      and r: "R (emit (FnCalled e) (run_enter e s)) s2"
    from r have fr: "frame (emit (FnCalled e) (run_enter e s)) s2"
      and g: "graph_ok (run_enter e s) \<Longrightarrow> graph_ok s2"
      by (simp_all add: R_def graph_ok_simple)
    from fr have ae: "activeEffect s2 = Some e"
      by (simp add: frame_def emit_ctl run_enter_ctl)
    have "graph_ok (run_finally e (shouldTrack s) s2)" if "graph_ok s"
    proof -
      from that walkParents_False[OF wp] have "graph_ok (run_enter e s)" by (rule run_enter_ok)
      then have "graph_ok s2" by (rule g)
      then show ?thesis using ae by (rule run_finally_ok)
    qed
    with frame_run[OF wp fr] show "R s (run_finally e (shouldTrack s) s2)"
      by (simp add: R_def)
  qed
  have "R s s'"
    by (rule eval_rel[of R, OF refl trans r_track r_pause r_enable r_reset r_sched r_onStop
          r_inactive r_dirty r_trackRef r_cleanup r_deactivate r_run ev])
  with ok show ?thesis by (simp add: R_def)
qed

text \<open>
  Claim C10.  The link between effects and dependency entries is kept in both
  directions by every operation.  In the freshly loaded runtime, with effects that
  have not run and derived values that have not been read, the graph is well formed
  (\<open>graph_ok_init\<close>); and from a state with a well-formed graph, after any call
  that returns, normally or by an exception (the body of a user function, that is any
  sequence of track, trigger, run, stop and derived-value reads, with everything
  they call), the graph is well formed again, and so an effect is a member of a
  dependency entry if and only if the entry is in the \<open>deps\<close> list of the effect.
\<close>

theorem link_bidirectional:
  assumes "graph_ok s" and "eval k c s = Some (out, s')"
  shows "graph_ok s' \<and>
         ((e \<in> set (members (depStore s' d))) = (d \<in> set (deps (effects s' e))))"
proof -
  from eval_graph_ok[OF assms(2,1)] have g: "graph_ok s'" .
  then have "linked s'" by (simp add: graph_ok_def)
  with g show ?thesis by (simp add: linked_def)
qed

theorem link_bidirectional_witness:
  "graph_ok link_start \<and>
   (case eval 2 (Body link_script) link_start of
      Some (out, s') \<Rightarrow>
        out = Normal \<and> graph_ok s' \<and>
        members (depStore s' 0) = [0] \<and> deps (effects s' 0) = [0] \<and>
        members (depStore s' 1) = [] \<and> deps (effects s' 1) = [] \<and>
        ((0 \<in> set (members (depStore s' 0))) = (0 \<in> set (deps (effects s' 0)))) \<and>
        ((1 \<in> set (members (depStore s' 0))) = (0 \<in> set (deps (effects s' 1))))
    | None \<Rightarrow> False)"
proof -
  have g: "graph_ok link_start"
    unfolding link_start_def
    by (rule graph_ok_init) (simp_all add: newEffect_def no_computeds_def)
  have "\<exists>s'. eval 2 (Body link_script) link_start = Some (Normal, s') \<and>
          members (depStore s' 0) = [0] \<and> deps (effects s' 0) = [0] \<and>
          members (depStore s' 1) = [] \<and> deps (effects s' 1) = []"
    by (simp add: link_start_def link_script_def rt_eval numeral_2_eq_2)
  then obtain s' where ev: "eval 2 (Body link_script) link_start = Some (Normal, s')"
    and r: "members (depStore s' 0) = [0]" "deps (effects s' 0) = [0]"
      "members (depStore s' 1) = []" "deps (effects s' 1) = []"
    by blast
  from link_bidirectional[OF g ev, of 0 0] link_bidirectional[OF g ev, of 1 0] g ev r
  show ?thesis by simp
qed

subsection \<open>The cleanup after an exception\<close>



subsection \<open>Plain systems: every run returns\<close>

lemma walk_chain_list:
  "chain_list efs p cs \<Longrightarrow> length cs \<le> k \<Longrightarrow> walkParents k efs p x = Some (x \<in> set cs)"
proof (induction arbitrary: k rule: chain_list.induct)
  case nil
  show ?case by simp
next
  case (cons p cs)
  from cons.prems obtain k' where k: "k = Suc k'" and l: "length cs \<le> k'" by (cases k) auto
  from cons.IH[OF l] k show ?case by auto
qed

lemma chain_list_cong:
  "chain_list efs p cs \<Longrightarrow> (\<And>y. y \<in> set cs \<Longrightarrow> parent (efs' y) = parent (efs y)) \<Longrightarrow>
   chain_list efs' p cs"
proof (induction rule: chain_list.induct)
  case nil
  show ?case by (rule chain_list.nil)
next
  case (cons p cs)
  have "chain_list efs' (parent (efs p)) cs" by (rule cons.IH) (simp add: cons.prems)
  moreover have "parent (efs' p) = parent (efs p)" by (simp add: cons.prems)
  ultimately show ?case by (simp add: chain_list.cons)
qed

lemma chain_list_Some:
  "chain_list efs (Some a) cs \<Longrightarrow> \<exists>cs'. cs = a # cs' \<and> chain_list efs (parent (efs a)) cs'"
  by (auto elim: chain_list.cases)

lemma chain_list_None: "chain_list efs None cs \<Longrightarrow> cs = []"
  by (auto elim: chain_list.cases)

lemma set_foldl_set_add: "set (foldl set_add acc xs) = set acc \<union> set xs"
  by (induction xs arbitrary: acc) (auto simp: set_add_def)

lemma effects_of_deps_members:
  "set (effects_of_deps st ds) \<subseteq> (\<Union>d. set (members (st d)))"
proof -
  have "set (concat (map (\<lambda>x. case x of None \<Rightarrow> [] | Some d \<Rightarrow> members (st d)) ds))
          \<subseteq> (\<Union>d. set (members (st d)))"
    by (auto split: option.splits)
  moreover have "(case hd ds of None \<Rightarrow> [] | Some d \<Rightarrow> members (st d)) = []
      \<or> (\<exists>d. (case hd ds of None \<Rightarrow> [] | Some d \<Rightarrow> members (st d)) = members (st d))"
    by (cases "hd ds") auto
  ultimately show ?thesis
    by (auto simp: effects_of_deps_def createDep_def set_foldl_set_add)
qed

lemma trigger_effects_members:
  assumes "trigger_effects s t ty k nv = Some es" and "\<forall>d. set (members (depStore s d)) \<subseteq> F"
  shows "set es \<subseteq> F"
proof -
  from assms(1) have "es = [] \<or> (\<exists>ds. es = effects_of_deps (depStore s) ds)"
    by (auto simp: trigger_effects_def split: option.splits)
  with effects_of_deps_members[of "depStore s"] assms(2) show ?thesis by auto
qed

lemma finalize_list_members:
  "set (members (snd (finalize_list e tb ds st) d)) \<subseteq> set (members (st d))"
proof (induction ds arbitrary: st)
  case Nil
  show ?case by simp
next
  case (Cons a ds)
  show ?case
  proof (cases "stale st tb a")
    case True
    have "set (members (snd (finalize_list e tb ds
             (st(a := clearBits tb ((st a)\<lparr>members := set_delete (members (st a)) e\<rparr>)))) d))
          \<subseteq> set (members ((st(a := clearBits tb ((st a)\<lparr>members := set_delete (members (st a)) e\<rparr>))) d))"
      by (rule Cons.IH)
    also have "\<dots> \<subseteq> set (members (st d))"
      by (auto simp: clearBits_def set_delete_def)
    finally show ?thesis using True by simp
  next
    case False
    have "set (members (snd (finalize_list e tb ds (st(a := clearBits tb (st a)))) d))
          \<subseteq> set (members ((st(a := clearBits tb (st a))) d))"
      by (rule Cons.IH)
    also have "\<dots> \<subseteq> set (members (st d))"
      by (auto simp: clearBits_def)
    finally show ?thesis using False
      by (cases "finalize_list e tb ds (st(a := clearBits tb (st a)))") simp
  qed
qed

lemma finalizeDepMarkers_members:
  "set (members (depStore (finalizeDepMarkers e s) d)) \<subseteq> set (members (depStore s d))"
proof (cases "deps (effects s e) = []")
  case True
  then show ?thesis by (simp add: finalizeDepMarkers_def)
next
  case False
  obtain p ds' st' where r: "finalize_loop e (trackOpBit s) 0 0 (deps (effects s e)) (depStore s) = (p, ds', st')"
    by (cases "finalize_loop e (trackOpBit s) 0 0 (deps (effects s e)) (depStore s)") auto
  from finalize_loop_list[of 0 0 "deps (effects s e)" e "trackOpBit s" "depStore s"] r
  have "st' = snd (finalize_list e (trackOpBit s) (deps (effects s e)) (depStore s))" by simp
  with finalize_list_members[of e "trackOpBit s" "deps (effects s e)" "depStore s" d] r False
  show ?thesis by (simp add: finalizeDepMarkers_def Let_def upd_effect_def)
qed

lemma plain_running_head:
  "plain_running F cs s \<Longrightarrow> activeEffect s = Some a \<Longrightarrow> a \<in> F"
  by (auto simp: plain_running_def dest: chain_list_Some)

lemma plain_running_length:
  assumes "plain_running F cs s"
  shows "length cs \<le> card F"
proof -
  from assms have f: "finite F" and d: "distinct cs" and s: "set cs \<subseteq> F"
    by (simp_all add: plain_running_def plain_system_def)
  from d have "length cs = card (set cs)" by (simp add: distinct_card)
  also from f s have "\<dots> \<le> card F" by (rule card_mono)
  finally show ?thesis .
qed

lemma plain_running_room:
  assumes "plain_running F cs s" "x \<in> F" "x \<notin> set cs"
  shows "length cs < card F"
proof -
  from assms have f: "finite F" and d: "distinct cs" and s: "set cs \<subseteq> F"
    by (simp_all add: plain_running_def plain_system_def)
  from s assms(2,3) have "set cs \<subset> F" by auto
  with f have "card (set cs) < card F" by (rule psubset_card_mono)
  with d show ?thesis by (simp add: distinct_card)
qed

text \<open>Steps that change neither the running effects nor what the effects are.\<close>

lemma plain_running_same_ctl:
  assumes pr: "plain_running F cs s" and c: "same_ctl s s'"
    and m: "\<And>d. set (members (depStore s' d)) \<subseteq> F"
  shows "plain_running F cs s'"
proof -
  note f = same_ctl_fields[OF c]
  from c have ae: "activeEffect s' = activeEffect s" by (simp add: same_ctl_def)
  from pr have "chain_list (effects s) (activeEffect s) cs" by (simp add: plain_running_def)
  then have ch: "chain_list (effects s') (activeEffect s') cs"
    unfolding ae by (rule chain_list_cong) (simp add: f(1))
  from pr have "\<forall>x \<in> F. plain_effect F (effects s' x)"
    by (simp add: plain_running_def plain_system_def plain_effect_def f)
  with pr ch m show ?thesis by (simp add: plain_running_def plain_system_def)
qed

lemma trackEffects_members:
  "set (members (depStore (trackEffects d a s) d')) \<subseteq> insert a (set (members (depStore s d')))"
  by (auto simp: trackEffects_fields Let_def set_add_def)

lemma track_members:
  "set (members (depStore (track t ky s) d)) \<subseteq>
     set (members (depStore s d)) \<union> set_option (activeEffect s)"
proof (cases "shouldTrack s")
  case False
  then show ?thesis by (simp add: track_def)
next
  case True
  show ?thesis
  proof (cases "activeEffect s")
    case None
    with True show ?thesis by (simp add: track_def)
  next
    case (Some a)
    define depsMap where "depsMap = (case targetMap s t of None \<Rightarrow> [] | Some m \<Rightarrow> m)"
    show ?thesis
    proof (cases "map_of depsMap ky")
      case (Some d0)
      with True \<open>activeEffect s = Some a\<close> have
        "track t ky s = trackEffects d0 a (s\<lparr>targetMap := (targetMap s)(t \<mapsto> depsMap)\<rparr>)"
        by (simp add: track_def depsMap_def[symmetric] Let_def)
      with trackEffects_members[of d0 a "s\<lparr>targetMap := (targetMap s)(t \<mapsto> depsMap)\<rparr>" d]
        \<open>activeEffect s = Some a\<close> show ?thesis by auto
    next
      case None
      define s1 where "s1 = s\<lparr>targetMap := (targetMap s)(t \<mapsto> depsMap @ [(ky, nextDep s)]),
               depStore := (depStore s)(nextDep s := createDep []), nextDep := nextDep s + 1\<rparr>"
      from None True \<open>activeEffect s = Some a\<close> have "track t ky s = trackEffects (nextDep s) a s1"
        by (simp add: track_def depsMap_def[symmetric] Let_def s1_def)
      moreover have "set (members (depStore s1 d)) \<subseteq> set (members (depStore s d))"
        by (simp add: s1_def createDep_def)
      ultimately show ?thesis
        using trackEffects_members[of "nextDep s" a s1 d] \<open>activeEffect s = Some a\<close> by auto
    qed
  qed
qed

lemma plain_running_track:
  assumes "plain_running F cs s"
  shows "plain_running F cs (track t ky s)"
proof (rule plain_running_same_ctl[OF assms track_ctl])
  fix d
  from assms have m: "set (members (depStore s d)) \<subseteq> F"
    by (simp add: plain_running_def plain_system_def)
  have "set_option (activeEffect s) \<subseteq> F"
    using plain_running_head[OF assms] by (cases "activeEffect s") auto
  with m track_members[of t ky s d] show "set (members (depStore (track t ky s) d)) \<subseteq> F"
    by blast
qed

lemma plain_running_prims:
  assumes "plain_running F cs s"
  shows "plain_running F cs (pauseTracking s)" "plain_running F cs (enableTracking s)"
    "plain_running F cs (resetTracking s)"
proof -
  from assms have m: "set (members (depStore s d)) \<subseteq> F" for d
    by (simp add: plain_running_def plain_system_def)
  have c: "same_ctl s (pauseTracking s)" "same_ctl s (enableTracking s)"
    "same_ctl s (resetTracking s)"
    by (simp_all add: same_ctl_def pauseTracking_def enableTracking_def resetTracking_def)
  have d: "depStore (pauseTracking s) = depStore s" "depStore (enableTracking s) = depStore s"
    "depStore (resetTracking s) = depStore s"
    by (simp_all add: pauseTracking_def enableTracking_def resetTracking_def)
  show "plain_running F cs (pauseTracking s)"
    by (rule plain_running_same_ctl[OF assms c(1)]) (simp add: d m)
  show "plain_running F cs (enableTracking s)"
    by (rule plain_running_same_ctl[OF assms c(2)]) (simp add: d m)
  show "plain_running F cs (resetTracking s)"
    by (rule plain_running_same_ctl[OF assms c(3)]) (simp add: d m)
qed

text \<open>Entering and leaving a run.\<close>

lemma plain_running_enter:
  assumes pr: "plain_running F cs s" and x: "x \<in> F" "x \<notin> set cs"
  shows "plain_running F (x # cs) (emit (FnCalled x) (run_enter x s))"
proof -
  define s1 where "s1 = emit (FnCalled x) (run_enter x s)"
  have ef: "effects s1 = effects (run_enter x s)" and ae: "activeEffect s1 = Some x"
    and ds: "depStore s1 = depStore (run_enter x s)"
    by (simp_all add: s1_def emit_ctl run_enter_ctl)
  from pr have ch: "chain_list (effects s) (activeEffect s) cs" and di: "distinct cs"
    and su: "set cs \<subseteq> F" and ps: "plain_system F s"
    by (simp_all add: plain_running_def)
  have "chain_list (effects s1) (activeEffect s) cs"
    using ch
  proof (rule chain_list_cong)
    fix y assume "y \<in> set cs"
    with x(2) have "y \<noteq> x" by auto
    then show "parent (effects s1 y) = parent (effects s y)" by (simp add: ef run_enter_ctl)
  qed
  moreover have "parent (effects s1 x) = activeEffect s" by (simp add: ef run_enter_ctl)
  ultimately have c1: "chain_list (effects s1) (activeEffect s1) (x # cs)"
    by (simp add: ae chain_list.cons)
  from ps have p1: "\<forall>y \<in> F. plain_effect F (effects s1 y)"
    by (simp add: plain_system_def plain_effect_def ef run_enter_ctl)
  have m1: "set (members (depStore s1 d)) \<subseteq> F" for d
  proof -
    have "set (members (depStore s1 d)) \<subseteq> set (members (depStore s d))"
      by (auto simp: ds run_enter_fields set_delete_def)
    with ps show ?thesis by (auto simp: plain_system_def)
  qed
  from ps p1 m1 c1 di su x show ?thesis
    by (simp add: plain_running_def plain_system_def s1_def[symmetric])
qed

lemma plain_running_leave:
  assumes pr: "plain_running F (x # cs) s2"
  shows "plain_running F cs (run_finally x b s2)"
proof -
  define s' where "s' = run_finally x b s2"
  from pr have ch: "chain_list (effects s2) (activeEffect s2) (x # cs)" and di: "distinct (x # cs)"
    and su: "set (x # cs) \<subseteq> F" and ps: "plain_system F s2"
    by (simp_all add: plain_running_def)
  from ch have c0: "chain_list (effects s2) (parent (effects s2 x)) cs"
    by (auto elim: chain_list.cases)
  have "chain_list (effects s') (parent (effects s2 x)) cs"
    using c0
  proof (rule chain_list_cong)
    fix y assume "y \<in> set cs"
    with di have "y \<noteq> x" by auto
    then show "parent (effects s' y) = parent (effects s2 y)" by (simp add: s'_def run_finally_ctl)
  qed
  then have c1: "chain_list (effects s') (activeEffect s') cs"
    by (simp add: s'_def run_finally_ctl)
  from ps have p1: "\<forall>y \<in> F. plain_effect F (effects s' y)"
    by (simp add: plain_system_def plain_effect_def s'_def run_finally_ctl)
  have m1: "set (members (depStore s' d)) \<subseteq> F" for d
  proof -
    have "set (members (depStore s' d)) \<subseteq> set (members (depStore s2 d))"
      using finalizeDepMarkers_members[of x s2 d] by (simp add: s'_def run_finally_store)
    with ps show ?thesis by (auto simp: plain_system_def)
  qed
  from ps p1 m1 c1 di su show ?thesis
    by (simp add: plain_running_def plain_system_def s'_def[symmetric])
qed

text \<open>
  In a plain system every call returns when it is given enough nested calls: a run,
  \<open>triggerEffects\<close> and the body of a function.  The effects being run are each
  once on the chain, so at most \<open>card F\<close> runs are nested.
\<close>

lemma plain_total:
  "\<forall>s k. plain_running F cs s \<longrightarrow> 2 * card F + 1 \<le> k + length cs \<longrightarrow>
     (\<forall>x \<in> F. \<exists>out s'. eval k (Run x) s = Some (out, s') \<and> plain_running F cs s') \<and>
     (\<forall>es. set es \<subseteq> F \<longrightarrow>
        (\<exists>out s'. eval k (TriggerEffects es) s = Some (out, s') \<and> plain_running F cs s')) \<and>
     (\<forall>as. list_all (plain_action F) as \<longrightarrow>
        (\<exists>out s'. eval k (Body as) s = Some (out, s') \<and> plain_running F cs s'))"
proof (induction cs rule: measure_induct_rule[where f = "\<lambda>cs. card F - length cs"])
  case (less cs)
  have R: "\<exists>out s'. eval k (Run x) s = Some (out, s') \<and> plain_running F cs s'"
    if pr: "plain_running F cs s" and fu: "2 * card F + 1 \<le> k + length cs" and x: "x \<in> F"
    for s k x
  proof -
    from plain_running_length[OF pr] fu obtain k' where k: "k = Suc k'" and kl: "length cs \<le> k'"
      by (cases k) auto
    from pr x have act: "active (effects s x)"
      by (simp add: plain_running_def plain_system_def plain_effect_def)
    from pr have ch: "chain_list (effects s) (activeEffect s) cs" by (simp add: plain_running_def)
    from walk_chain_list[OF ch kl]
    have w: "walkParents k' (effects s) (activeEffect s) x = Some (x \<in> set cs)" .
    show ?thesis
    proof (cases "x \<in> set cs")
      case True
      with w act k have "eval k (Run x) s = Some (Normal, s)" by simp
      with pr show ?thesis by blast
    next
      case False
      define s1 where "s1 = emit (FnCalled x) (run_enter x s)"
      have p1: "plain_running F (x # cs) s1"
        unfolding s1_def by (rule plain_running_enter[OF pr x False])
      from plain_running_room[OF pr x False]
      have "card F - length (x # cs) < card F - length cs" by simp
      note ih = less.IH[OF this]
      have f1: "2 * card F + 1 \<le> k' + length (x # cs)" using fu k by simp
      from p1 x have "list_all (plain_action F) (fn (effects s1 x))"
        by (simp add: plain_running_def plain_system_def plain_effect_def)
      with ih p1 f1 obtain out s2 where
        e2: "eval k' (Body (fn (effects s1 x))) s1 = Some (out, s2)"
        and p2: "plain_running F (x # cs) s2"
        by blast
      have "fn (effects s1 x) = fn (effects (run_enter x s) x)" by (simp add: s1_def emit_ctl)
      with e2 w False act k
      have "eval k (Run x) s = Some (out, run_finally x (shouldTrack s) s2)"
        by (simp add: Let_def s1_def)
      with plain_running_leave[OF p2] show ?thesis by blast
    qed
  qed
  have T: "\<exists>out s'. eval k (TriggerEffects es) s = Some (out, s') \<and> plain_running F cs s'"
    if "plain_running F cs s" and fu: "2 * card F + 1 \<le> k + length cs" and "set es \<subseteq> F"
    for s k es
    using that(1,3)
  proof (induction es arbitrary: s)
    case Nil
    then show ?case by auto
  next
    case (Cons e es)
    from Cons.prems have e: "e \<in> F" and es: "set es \<subseteq> F" by auto
    from Cons.prems(1) e have sc: "scheduler (effects s e) = None"
      by (simp add: plain_running_def plain_system_def plain_effect_def)
    show ?case
    proof (cases "Some e \<noteq> activeEffect s \<or> allowRecurse (effects s e)")
      case False
      with Cons.IH[OF Cons.prems(1) es] show ?thesis by simp
    next
      case True
      from R[OF Cons.prems(1) fu e] obtain out s1 where
        r: "eval k (Run e) s = Some (out, s1)" and p1: "plain_running F cs s1" by blast
      show ?thesis
      proof (cases out)
        case Normal
        from Cons.IH[OF p1 es] obtain out' s' where
          "eval k (TriggerEffects es) s1 = Some (out', s')" "plain_running F cs s'" by blast
        with True sc r Normal show ?thesis by simp
      next
        case Thrown
        with True sc r p1 show ?thesis by simp
      qed
    qed
  qed
  have B: "\<exists>out s'. eval k (Body as) s = Some (out, s') \<and> plain_running F cs s'"
    if "plain_running F cs s" and fu: "2 * card F + 1 \<le> k + length cs"
      and "list_all (plain_action F) as"
    for s k as
    using that(1,3)
  proof (induction as arbitrary: s)
    case Nil
    then show ?case by auto
  next
    case (Cons a as)
    from Cons.prems have a: "plain_action F a" and as: "list_all (plain_action F) as" by auto
    note pr = Cons.prems(1)
    define r where "r = (case a of
              Track t ky \<Rightarrow> Some (Normal, track t ky s)
            | Trigger t ty ky nv \<Rightarrow>
                (case trigger_effects s t ty ky nv of
                   None \<Rightarrow> Some (Thrown, s)
                 | Some effs \<Rightarrow> eval k (TriggerEffects effs) s)
            | RunEffect e \<Rightarrow> eval k (Run e) s
            | StopEffect e \<Rightarrow> eval k (Stop e) s
            | ReadComputed c \<Rightarrow> eval k (ComputedGet c) s
            | PauseTracking \<Rightarrow> Some (Normal, pauseTracking s)
            | EnableTracking \<Rightarrow> Some (Normal, enableTracking s)
            | ResetTracking \<Rightarrow> Some (Normal, resetTracking s)
            | Throw \<Rightarrow> Some (Thrown, s))"
    have ev: "eval k (Body (a # as)) s =
        (case r of Some (Normal, s') \<Rightarrow> eval k (Body as) s' | r' \<Rightarrow> r')"
      by (simp add: r_def)
    have st: "\<exists>out s1. r = Some (out, s1) \<and> plain_running F cs s1"
    proof (cases a)
      case (Track t ky)
      with plain_running_track[OF pr] show ?thesis by (simp add: r_def)
    next
      case (Trigger t ty ky nv)
      show ?thesis
      proof (cases "trigger_effects s t ty ky nv")
        case None
        with Trigger pr show ?thesis by (simp add: r_def)
      next
        case (Some effs)
        from pr have "\<forall>d. set (members (depStore s d)) \<subseteq> F"
          by (simp add: plain_running_def plain_system_def)
        from trigger_effects_members[OF Some this] have "set effs \<subseteq> F" .
        from T[OF pr fu this] Trigger Some show ?thesis by (simp add: r_def)
      qed
    next
      case (RunEffect e)
      with a have "e \<in> F" by simp
      from R[OF pr fu this] RunEffect show ?thesis by (simp add: r_def)
    next
      case (StopEffect e)
      with a show ?thesis by simp
    next
      case (ReadComputed c)
      with a show ?thesis by simp
    next
      case PauseTracking
      with plain_running_prims(1)[OF pr] show ?thesis by (simp add: r_def)
    next
      case EnableTracking
      with plain_running_prims(2)[OF pr] show ?thesis by (simp add: r_def)
    next
      case ResetTracking
      with plain_running_prims(3)[OF pr] show ?thesis by (simp add: r_def)
    next
      case Throw
      with pr show ?thesis by (simp add: r_def)
    qed
    then obtain out s1 where r1: "r = Some (out, s1)" and p1: "plain_running F cs s1" by blast
    show ?case
    proof (cases out)
      case Normal
      from Cons.IH[OF p1 as] obtain out' s' where
        "eval k (Body as) s1 = Some (out', s')" "plain_running F cs s'" by blast
      with r1 Normal show ?thesis by (simp only: ev) simp
    next
      case Thrown
      with r1 p1 show ?thesis by (simp only: ev) simp
    qed
  qed
  from R T B show ?case by blast
qed

text \<open>
  Claim C3, for the effects that are not stopped.  The run of an effect that is on
  the chain of the running effects returns at once, leaving the state as it is.
  While an effect without the \<open>allowRecurse\<close> flag is the active one,
  \<open>triggerEffects\<close> of its own dependency entry skips it.  A run of an effect that
  is not yet running and is not stopped during the run has called the function of
  the effect exactly once when it returns, whatever the function triggers.  And in a
  plain system (finitely many effects that are not stopped, without schedulers,
  whose functions only read and write reactive state, run each other or throw), an
  effect triggered or run from outside any run returns, given \<open>2 * card F + 1\<close>
  nested calls or more, and has called its function exactly once, however the
  effects trigger their own and each other's dependencies; the system is plain
  again afterwards.
\<close>

theorem run_self_recursion_guard:
  assumes "active (effects s e)"
  shows
   "(on_chain (effects s) (activeEffect s) e \<longrightarrow>
      (\<exists>k0. \<forall>k \<ge> k0. eval k (Run e) s = Some (Normal, s))) \<and>
    (activeEffect s = Some e \<and> \<not> allowRecurse (effects s e) \<longrightarrow>
      (\<forall>k. eval k (TriggerEffects [e]) s = Some (Normal, s))) \<and>
    (\<not> on_chain (effects s) (activeEffect s) e \<longrightarrow>
      (\<forall>k out s'. eval k (Run e) s = Some (out, s') \<and> active (effects s' e) \<longrightarrow>
         calls e s' = calls e s + 1)) \<and>
    (plain_system F s \<and> e \<in> F \<and> activeEffect s = None \<longrightarrow>
      (\<forall>k \<ge> 2 * card F + 1.
         \<exists>out s'. eval k (Run e) s = Some (out, s') \<and>
           eval k (TriggerEffects [e]) s = Some (out, s') \<and>
           calls e s' = calls e s + 1 \<and> plain_system F s' \<and> activeEffect s' = None))"
proof -
  have 1: "on_chain (effects s) (activeEffect s) e \<longrightarrow>
      (\<exists>k0. \<forall>k \<ge> k0. eval k (Run e) s = Some (Normal, s))"
    using run_on_chain[OF assms] by blast
  have 2: "activeEffect s = Some e \<and> \<not> allowRecurse (effects s e) \<longrightarrow>
      (\<forall>k. eval k (TriggerEffects [e]) s = Some (Normal, s))"
    by simp
  have 3: "\<not> on_chain (effects s) (activeEffect s) e \<longrightarrow>
      (\<forall>k out s'. eval k (Run e) s = Some (out, s') \<and> active (effects s' e) \<longrightarrow>
         calls e s' = calls e s + 1)"
    using run_once[of _ e s] by blast
  have 4: "\<exists>out s'. eval k (Run e) s = Some (out, s') \<and>
           eval k (TriggerEffects [e]) s = Some (out, s') \<and>
           calls e s' = calls e s + 1 \<and> plain_system F s' \<and> activeEffect s' = None"
    if ps: "plain_system F s" and e: "e \<in> F" and ae: "activeEffect s = None"
      and k: "2 * card F + 1 \<le> k" for k
  proof -
    from ps ae have pr: "plain_running F [] s"
      by (simp add: plain_running_def chain_list.nil)
    from plain_total[of F "[]"] pr k e obtain out s' where
      ev: "eval k (Run e) s = Some (out, s')" and p': "plain_running F [] s'"
      by fastforce
    from p' have ps': "plain_system F s'" and "chain_list (effects s') (activeEffect s') []"
      by (simp_all add: plain_running_def)
    then have ae': "activeEffect s' = None"
      by (cases "activeEffect s'") (auto dest: chain_list_Some)
    from ps' e have a': "active (effects s' e)"
      by (simp add: plain_system_def plain_effect_def)
    have nc: "\<not> on_chain (effects s) (activeEffect s) e"
      by (auto simp: ae elim: on_chain.cases)
    from run_once[OF ev a' nc] have c: "calls e s' = calls e s + 1" .
    from ps e have sc: "scheduler (effects s e) = None"
      by (simp add: plain_system_def plain_effect_def)
    have "eval k (TriggerEffects [e]) s = Some (out, s')"
      using ev sc ae by (cases out) simp_all
    with ev c ps' ae' show ?thesis by blast
  qed
  from 1 2 3 4 show ?thesis by blast
qed

theorem run_self_recursion_guard_witness:
  "(case self_trigger_start of
      Some (out0, st) \<Rightarrow>
        active (effects st 0) \<and> \<not> on_chain (effects st) (activeEffect st) 0 \<and>
        plain_system {0} st \<and> activeEffect st = None \<and> calls 0 st = 1 \<and>
        (case trigger 1 (Target PlainObject 0) SET (Some (KStr ''a'')) (Some 2) st of
           Some (out, s') \<Rightarrow> out = Normal \<and> active (effects s' 0) \<and> calls 0 s' = calls 0 st + 1
         | None \<Rightarrow> False) \<and>
        (case eval 3 (TriggerEffects [0]) st of
           Some (out, s') \<Rightarrow> calls 0 s' = 2 \<and> plain_system {0} s' \<and> activeEffect s' = None
         | None \<Rightarrow> False)
    | None \<Rightarrow> False)"
proof -
  define st where "st = snd (the self_trigger_start)"
  have st: "self_trigger_start = Some (Normal, st)"
    and a: "active (effects st 0)" and ae: "activeEffect st = None"
    and tr: "trace st = [FnCalled 0]"
    and tm: "targetMap st (Target PlainObject 0) = Some [(KStr ''a'', 0)]"
    and me: "members (depStore st 0) = [0]" and sc: "scheduler (effects st 0) = None"
    by (simp_all add: st_def self_trigger_start_def rt_eval)
  have ps: "plain_system {0} st"
    by (simp add: st_def self_trigger_start_def rt_eval plain_system_def plain_effect_def)
  have nc: "\<not> on_chain (effects st) (activeEffect st) 0"
    by (auto simp: ae elim: on_chain.cases)
  have te: "trigger_effects st (Target PlainObject 0) SET (Some (KStr ''a'')) (Some 2) = Some [0]"
    by (simp add: trigger_effects_def tm collect_deps_def effects_of_deps_def me)
  have tg: "trigger 1 (Target PlainObject 0) SET (Some (KStr ''a'')) (Some 2) st =
      (case eval 1 (Run 0) st of Some (Normal, s') \<Rightarrow> Some (Normal, s') | r \<Rightarrow> r)"
    by (simp add: trigger_def te ae sc split: option.splits outcome.splits)
  obtain out s' where ev: "eval 1 (Run 0) st = Some (out, s')" and o: "out = Normal"
    and a': "active (effects s' 0)"
  proof -
    have "\<exists>s'. eval 1 (Run 0) st = Some (Normal, s') \<and> active (effects s' 0)"
      by (simp add: st_def self_trigger_start_def rt_eval)
    with that show ?thesis by auto
  qed
  note th = run_self_recursion_guard[OF a, of "{0}"]
  from th nc ev a' have c: "calls 0 s' = calls 0 st + 1" by blast
  have c0: "calls 0 st = 1" by (simp add: calls_def tr)
  have t2: "trigger 1 (Target PlainObject 0) SET (Some (KStr ''a'')) (Some 2) st = Some (Normal, s')"
    by (simp only: tg ev o option.case prod.case outcome.case)
  have "2 * card {0::nat} + 1 \<le> (3::nat)" by simp
  with th ps ae obtain out3 s3 where
    e3: "eval 3 (TriggerEffects [0]) st = Some (out3, s3)"
    and r3: "calls 0 s3 = calls 0 st + 1" "plain_system {0} s3" "activeEffect s3 = None"
    by blast
  from r3 c0 have r3': "calls 0 s3 = 2" by simp
  show ?thesis
    by (simp only: st t2 e3 option.case prod.case) (intro conjI a nc ps ae c0 refl a' c r3' r3(2,3))
qed

end
